theory Spec2Isabelle
  imports Complex_Main "HOL-Library.Sublist" "HOL-Library.AList"
begin

section \<open>Carousel generator: style resolution, text layout, rasterisation, export\<close>

text \<open>
  A shallow embedding of the rendering and export code of \<^verbatim>\<open>App.tsx\<close>
  (\<^verbatim>\<open>getFontDetails\<close>, \<^verbatim>\<open>getColorPalette\<close>, \<^verbatim>\<open>wrapText\<close>,
  \<^verbatim>\<open>renderSlideToBlob\<close>, the image effect of \<^verbatim>\<open>CarouselPreview\<close>, the
  mounting of previews by \<^verbatim>\<open>handleGeneration\<close> and \<^verbatim>\<open>ResultsDisplay\<close>, and
  \<^verbatim>\<open>handleDownloadZip\<close>).

  JavaScript strings are modelled as \<^typ>\<open>string\<close> (one \<^typ>\<open>char\<close> per code unit),
  JavaScript numbers that hold pixel widths and coordinates as \<^typ>\<open>real\<close>,
  slide orders and font sizes as \<^typ>\<open>int\<close>.  An optional field that the code
  reads only through \<^verbatim>\<open>?.\<close> or \<^verbatim>\<open>|| ''\<close> is an \<^typ>\<open>'a option\<close>, with
  \<^const>\<open>None\<close> for \<^verbatim>\<open>undefined\<close> and \<^verbatim>\<open>null\<close> alike, which those
  operators do not tell apart; where the code does tell them apart, the argument of
  \<^verbatim>\<open>getColorPalette\<close>, the two are different values and the exception is a
  result.  What the browser supplies (canvas contexts, text metrics, image
  decoding, PNG encoding, archive packing) and the table \<^verbatim>\<open>STYLE_OPTIONS\<close> of
  \<^verbatim>\<open>constants.ts\<close> are parameters of the functions that use them.
\<close>

subsection \<open>String primitives\<close>

text \<open>\<^verbatim>\<open>s.includes(sub)\<close>: some suffix of \<open>s\<close> starts with \<open>sub\<close>.\<close>

fun str_includes :: "string \<Rightarrow> string \<Rightarrow> bool" where
  "str_includes [] sub = (sub = [])"
| "str_includes (c # cs) sub = (prefix sub (c # cs) \<or> str_includes cs sub)"

text \<open>\<^verbatim>\<open>s.startsWith(p)\<close>.\<close>

definition startsWith :: "string \<Rightarrow> string \<Rightarrow> bool" where
  "startsWith s p = prefix p s"

text \<open>
  \<^verbatim>\<open>text.split(' ')\<close>: the maximal space-free pieces, empty pieces included; the
  result is never the empty array.
\<close>

fun split_space :: "string \<Rightarrow> string list" where
  "split_space [] = [[]]"
| "split_space (c # cs) =
     (if c = CHR '' '' then [] # split_space cs
      else (c # hd (split_space cs)) # tl (split_space cs))"

text \<open>Decimal rendering of a number inside a template literal.\<close>

definition digit :: "nat \<Rightarrow> char" where
  "digit d = ''0123456789'' ! d"

fun dec :: "nat \<Rightarrow> string" where
  "dec n = (if n < 10 then [digit n] else dec (n div 10) @ [digit (n mod 10)])"

declare dec.simps [simp del]

definition num_to_string :: "int \<Rightarrow> string" where
  "num_to_string k = (if k < 0 then CHR ''-'' # dec (nat (- k)) else dec (nat k))"

subsection \<open>Data model (\<^verbatim>\<open>types.ts\<close>)\<close>

datatype Language = pt | en | es

datatype slide_tipo = capa | conteudo | cta

record Slide =
  ordem :: int
  tipo :: slide_tipo
  frase :: string
  instrucoes_layout :: string
  prompt_imagem :: string

text \<open>
  A carousel as a preview holds it.  \<^verbatim>\<open>estilo_fundo\<close> is read by
  \<^verbatim>\<open>?.includes\<close> and \<^verbatim>\<open>tipografia\<close> by \<^verbatim>\<open>|| ''\<close>, so \<^const>\<open>None\<close> is
  \<^verbatim>\<open>undefined\<close> or \<^verbatim>\<open>null\<close> there.  For \<^verbatim>\<open>paleta_cores\<close> \<^const>\<open>None\<close> is
  \<^verbatim>\<open>undefined\<close> only: the body of \<^verbatim>\<open>CarouselPreview\<close> calls
  \<^verbatim>\<open>getColorPalette(carousel.paleta_cores)\<close> when it renders, which throws for
  \<^verbatim>\<open>null\<close> (see \<open>getColorPalette\<close> below), so that a carousel whose palette is
  \<^verbatim>\<open>null\<close> never has a mounted preview, an effect or an export.
\<close>

record Carousel =
  carousel_id :: string
  nicho :: "string option"
  contexto :: "string option"
  estilo_fundo :: "string option"
  paleta_cores :: "string option"
  tipografia :: "string option"
  cta_no_ultimo_slide :: "bool option"
  slides :: "Slide list"

subsection \<open>Style resolver\<close>

text \<open>
  An entry of \<^verbatim>\<open>STYLE_OPTIONS.typography[lang]\<close>.  The table itself lives in
  \<^verbatim>\<open>constants.ts\<close>; \<^verbatim>\<open>getFontDetails\<close> reads the fields \<^verbatim>\<open>value\<close> and
  \<^verbatim>\<open>fontFamily\<close> of its entries, so the table is passed in as a function from the
  language to its list of entries.
\<close>

record fontOption =
  opt_value :: string
  opt_fontFamily :: string

datatype text_transform = tt_none | tt_uppercase

record fontDetails =
  fontFamily :: string
  textTransform :: text_transform
  fontWeight :: string

definition defaultFont :: fontDetails where
  "defaultFont =
     \<lparr>fontFamily = [CHR 0x27] @ ''Montserrat'' @ [CHR 0x27] @ '', sans-serif'',
      textTransform = tt_none, fontWeight = ''700''\<rparr>"

definition getFontDetails ::
  "(Language \<Rightarrow> fontOption list) \<Rightarrow> string \<Rightarrow> Language \<Rightarrow> fontDetails" where
  "getFontDetails typography typographyName lang =
     (case find (\<lambda>f. opt_value f = typographyName) (typography lang) of
        None \<Rightarrow> defaultFont
      | Some fontOption \<Rightarrow>
          (let details = defaultFont\<lparr>fontFamily := opt_fontFamily fontOption\<rparr>
           in if str_includes (opt_value fontOption) ''Caixa alta''
                 \<or> str_includes (opt_value fontOption) ''Uppercase''
                 \<or> str_includes (opt_value fontOption) (''May'' @ [CHR 0xFA] @ ''sculas'')
              then details\<lparr>textTransform := tt_uppercase\<rparr>
              else details))"

record palette =
  bg :: string
  text_color :: string

text \<open>
  A value of type \<^verbatim>\<open>string | undefined | null\<close>, and the exception a method call
  on \<^verbatim>\<open>null\<close> raises.
\<close>

datatype js_string = Undefined | Null | Str string

datatype js_error = TypeError

text \<open>
  \<^verbatim>\<open>getColorPalette(paletteName = '')\<close>.  The default value replaces an argument
  that is \<^verbatim>\<open>undefined\<close>, and no other: with \<^verbatim>\<open>null\<close> the first
  \<^verbatim>\<open>paletteName.includes\<close> throws.
\<close>

definition getColorPalette :: "js_string \<Rightarrow> js_error + palette" where
  "getColorPalette arg =
     (case (case arg of Undefined \<Rightarrow> Str [] | Null \<Rightarrow> Null | Str s \<Rightarrow> Str s) of
        Str paletteName \<Rightarrow>
          Inr (if str_includes paletteName ''Escuro'' \<or> str_includes paletteName ''Dark''
               then \<lparr>bg = ''#1A1A1A'', text_color = ''#E0E0E0''\<rparr>
               else if str_includes paletteName ''Vibrante'' \<or> str_includes paletteName ''Vibrant''
               then \<lparr>bg = ''linear-gradient(135deg, #4F46E5, #9333EA)'', text_color = ''#FFFFFF''\<rparr>
               else if str_includes paletteName ''Neutro'' \<or> str_includes paletteName ''Neutral''
               then \<lparr>bg = ''#E5E7EB'', text_color = ''#111827''\<rparr>
               else \<lparr>bg = ''#F3EAD3'', text_color = ''#3A3A3A''\<rparr>)
      | _ \<Rightarrow> Inl TypeError)"

text \<open>
  \<^verbatim>\<open>getColorPalette(carousel.paleta_cores)\<close> for the carousel of a preview.  The
  argument is \<^verbatim>\<open>undefined\<close> or a string, so the call returns a palette (lemma
  \<open>carousel_colors_returns\<close>).
\<close>

definition optional_arg :: "string option \<Rightarrow> js_string" where
  "optional_arg v = (case v of None \<Rightarrow> Undefined | Some s \<Rightarrow> Str s)"

definition carousel_colors :: "Carousel \<Rightarrow> palette" where
  "carousel_colors carousel = projr (getColorPalette (optional_arg (paleta_cores carousel)))"

subsection \<open>The 2D canvas\<close>

text \<open>
  A rendering context is modelled by the attributes the code sets and the list of draw
  calls it has received, in order.
\<close>

datatype paint =
    Solid string
  | LinearGradient real real real real "(real \<times> string) list"

datatype HTMLImageElement = Image string

datatype draw_op =
    DrawImage HTMLImageElement real real real real
  | FillRect paint real real real real
  | FillText string paint string real real

record context2d =
  font :: string
  fillStyle :: paint
  textAlign :: string
  textBaseline :: string
  ops :: "draw_op list"

definition new_context :: context2d where
  "new_context =
     \<lparr>font = ''10px sans-serif'', fillStyle = Solid ''#000000'',
      textAlign = ''start'', textBaseline = ''alphabetic'', ops = []\<rparr>"

definition drawImage :: "context2d \<Rightarrow> HTMLImageElement \<Rightarrow> real \<Rightarrow> real \<Rightarrow> real \<Rightarrow> real \<Rightarrow> context2d" where
  "drawImage c img dx dy dw dh = c\<lparr>ops := ops c @ [DrawImage img dx dy dw dh]\<rparr>"

definition fillRect :: "context2d \<Rightarrow> real \<Rightarrow> real \<Rightarrow> real \<Rightarrow> real \<Rightarrow> context2d" where
  "fillRect c rx ry rw rh = c\<lparr>ops := ops c @ [FillRect (fillStyle c) rx ry rw rh]\<rparr>"

definition fillText :: "context2d \<Rightarrow> string \<Rightarrow> real \<Rightarrow> real \<Rightarrow> context2d" where
  "fillText c s tx ty = c\<lparr>ops := ops c @ [FillText (font c) (fillStyle c) s tx ty]\<rparr>"

text \<open>The text of a \<^verbatim>\<open>fillText\<close> call.\<close>

fun op_text :: "draw_op \<Rightarrow> string" where
  "op_text (FillText f p s tx ty) = s"
| "op_text (DrawImage img dx dy dw dh) = []"
| "op_text (FillRect p rx ry rw rh) = []"

subsection \<open>Text layout: \<^verbatim>\<open>wrapText\<close>\<close>

text \<open>
  The \<^verbatim>\<open>for\<close> loop over \<^verbatim>\<open>words\<close>.  The list argument holds
  \<^verbatim>\<open>words[n..]\<close>; the state is \<^verbatim>\<open>(context, line, y, lines)\<close>.
  \<open>metrics\<close> is \<^verbatim>\<open>context.measureText(_).width\<close> as a function of the
  context's font and the text.
\<close>

fun wrapText_loop ::
  "(string \<Rightarrow> string \<Rightarrow> real) \<Rightarrow> real \<Rightarrow> real \<Rightarrow> real \<Rightarrow> string list \<Rightarrow> nat \<Rightarrow>
     context2d \<times> string \<times> real \<times> nat \<Rightarrow> context2d \<times> string \<times> real \<times> nat" where
  "wrapText_loop metrics x maxWidth lineHeight [] n st = st"
| "wrapText_loop metrics x maxWidth lineHeight (w # ws) n (c, cur, y, cnt) =
     (let testLine = cur @ w @ '' '';
          testWidth = metrics (font c) testLine
      in if testWidth > maxWidth \<and> n > 0
         then wrapText_loop metrics x maxWidth lineHeight ws (n + 1)
                (fillText c cur x y, w @ '' '', y + lineHeight, cnt + 1)
         else wrapText_loop metrics x maxWidth lineHeight ws (n + 1)
                (c, testLine, y, cnt))"

definition wrapText ::
  "(string \<Rightarrow> string \<Rightarrow> real) \<Rightarrow> context2d \<Rightarrow> string \<Rightarrow> real \<Rightarrow> real \<Rightarrow> real \<Rightarrow> real \<Rightarrow>
     context2d \<times> nat" where
  "wrapText metrics c str x y maxWidth lineHeight =
     (case wrapText_loop metrics x maxWidth lineHeight (split_space str) 0 (c, [], y, 0) of
        (c', cur, y', cnt) \<Rightarrow> (fillText c' cur x y', cnt + 1))"

text \<open>The lines a call of \<^verbatim>\<open>wrapText\<close> draws: the texts of the draw calls it adds.\<close>

definition wrapText_lines ::
  "(string \<Rightarrow> string \<Rightarrow> real) \<Rightarrow> context2d \<Rightarrow> string \<Rightarrow> real \<Rightarrow> real \<Rightarrow> real \<Rightarrow> real \<Rightarrow>
     string list" where
  "wrapText_lines metrics c str x y maxWidth lineHeight =
     map op_text (drop (length (ops c)) (ops (fst (wrapText metrics c str x y maxWidth lineHeight))))"

subsection \<open>Slide rasteriser: \<^verbatim>\<open>renderSlideToBlob\<close>\<close>

type_synonym blob = "nat list"

record canvas =
  canvas_width :: int
  canvas_height :: int
  canvas_context :: context2d

text \<open>
  What the browser contributes to one call of \<^verbatim>\<open>renderSlideToBlob\<close> and to the
  image decoding before it: whether \<^verbatim>\<open>getContext('2d')\<close> yields a context, the
  text metrics, \<^verbatim>\<open>String.prototype.toUpperCase\<close>, the PNG encoder behind
  \<^verbatim>\<open>canvas.toBlob\<close> (\<^const>\<open>None\<close> for a \<^verbatim>\<open>null\<close> blob) and image loading
  (\<^const>\<open>None\<close> when \<^verbatim>\<open>onerror\<close> fires).
\<close>

record browser =
  b_getContext :: bool
  b_measureText :: "string \<Rightarrow> string \<Rightarrow> real"
  b_toUpperCase :: "string \<Rightarrow> string"
  b_toBlob :: "canvas \<Rightarrow> blob option"
  b_loadImage :: "string \<Rightarrow> HTMLImageElement option"

text \<open>The template literal \<^verbatim>\<open>`${fontWeight} ${fontSize}px ${fontFamily}`\<close>.\<close>

definition font_string :: "string \<Rightarrow> int \<Rightarrow> string \<Rightarrow> string" where
  "font_string weight fontSize family =
     weight @ '' '' @ num_to_string fontSize @ ''px '' @ family"

definition baseFontSize :: "slide_tipo \<Rightarrow> int" where
  "baseFontSize t = (if t = capa then 90 else 70)"

text \<open>
  \<^verbatim>\<open>size\<close> and \<^verbatim>\<open>size * 0.85\<close>.  In double arithmetic \<^verbatim>\<open>1080 * 0.85\<close> is
  exactly 918 and \<^verbatim>\<open>918 * 2.5\<close> exactly 2295, the values the real numbers give.
\<close>

definition canvas_size :: real where
  "canvas_size = 1080"

definition maxTextWidth :: real where
  "maxTextWidth = canvas_size * 0.85"

text \<open>
  The \<^verbatim>\<open>while\<close> loop of the dynamic font size: the condition measures the text in
  the font of the current size, the body takes 5 off the size.
\<close>

function fitFontSize ::
  "(string \<Rightarrow> string \<Rightarrow> real) \<Rightarrow> string \<Rightarrow> string \<Rightarrow> string \<Rightarrow> int \<Rightarrow> int" where
  "fitFontSize metrics weight family str fontSize =
     (if metrics (font_string weight fontSize family) str > maxTextWidth * 2.5 \<and> fontSize > 30
      then fitFontSize metrics weight family str (fontSize - 5)
      else fontSize)"
  by pat_completeness auto
termination
  by (relation "measure (\<lambda>(m, w, f, t, s). nat s)") auto

declare fitFontSize.simps [simp del]

text \<open>The fill style of the background when no image is supplied.\<close>

definition background_paint :: "palette \<Rightarrow> paint" where
  "background_paint colors =
     (if startsWith (bg colors) ''linear-gradient''
      then LinearGradient 0 0 canvas_size canvas_size [(0, ''#4F46E5''), (1, ''#9333EA'')]
      else Solid (bg colors))"

text \<open>The canvas as it is when \<^verbatim>\<open>canvas.toBlob\<close> is called.\<close>

definition render_canvas ::
  "browser \<Rightarrow> (Language \<Rightarrow> fontOption list) \<Rightarrow> Slide \<Rightarrow> Carousel \<Rightarrow> Language \<Rightarrow>
     HTMLImageElement option \<Rightarrow> canvas" where
  "render_canvas b typography slide carousel language bgImage =
     (let c1 = (case bgImage of
                  Some img \<Rightarrow>
                    fillRect ((drawImage new_context img 0 0 canvas_size canvas_size)
                                \<lparr>fillStyle := Solid ''rgba(0, 0, 0, 0.5)''\<rparr>)
                      0 0 canvas_size canvas_size
                | None \<Rightarrow>
                    fillRect (new_context
                                \<lparr>fillStyle := background_paint (carousel_colors carousel)\<rparr>)
                      0 0 canvas_size canvas_size);
          details = getFontDetails typography
                      (case tipografia carousel of None \<Rightarrow> [] | Some s \<Rightarrow> s) language;
          textColor = text_color (carousel_colors carousel);
          str = (if textTransform details = tt_uppercase
                 then b_toUpperCase b (frase slide) else frase slide);
          c2 = c1\<lparr>fillStyle := Solid textColor, textAlign := ''center'',
                   textBaseline := ''middle''\<rparr>;
          fontSize = fitFontSize (b_measureText b) (fontWeight details) (fontFamily details) str
                       (baseFontSize (tipo slide));
          c3 = c2\<lparr>font := font_string (fontWeight details) fontSize (fontFamily details)\<rparr>;
          lineHeight = real_of_int fontSize * 1.2;
          c4 = fst (wrapText (b_measureText b) c3 str (canvas_size / 2) (canvas_size / 2)
                      maxTextWidth lineHeight)
      in \<lparr>canvas_width = 1080, canvas_height = 1080, canvas_context = c4\<rparr>)"

definition renderSlideToBlob ::
  "browser \<Rightarrow> (Language \<Rightarrow> fontOption list) \<Rightarrow> Slide \<Rightarrow> Carousel \<Rightarrow> Language \<Rightarrow>
     HTMLImageElement option \<Rightarrow> blob option" where
  "renderSlideToBlob b typography slide carousel language bgImage =
     (if \<not> b_getContext b then None
      else b_toBlob b (render_canvas b typography slide carousel language bgImage))"

subsection \<open>Image orchestration: the effect of \<^verbatim>\<open>CarouselPreview\<close>\<close>

text \<open>
  The component state that the effect and the export read and write, together with a
  record of what is outstanding: the batches started and not yet settled (each with the
  carousel its closure captured) and the prompts handed to \<^verbatim>\<open>generateImage\<close>.
\<close>

record preview_state =
  carousel_prop :: Carousel
  imageUrls :: "int \<rightharpoonup> string"
  isLoadingImages :: bool
  in_flight :: "Carousel list"
  requested :: "string list"

definition isPhotoBg :: "Carousel \<Rightarrow> bool" where
  "isPhotoBg c =
     (case estilo_fundo c of
        None \<Rightarrow> False
      | Some s \<Rightarrow> str_includes s ''foto'' \<or> str_includes s ''photo'')"

text \<open>Truthiness of a \<^verbatim>\<open>string | null\<close> value: neither \<^verbatim>\<open>null\<close> nor empty.\<close>

definition truthy :: "string option \<Rightarrow> bool" where
  "truthy v = (case v of None \<Rightarrow> False | Some s \<Rightarrow> s \<noteq> [])"

text \<open>
  \<^verbatim>\<open>results.forEach((url, index) => { if (url) urls[carousel.slides[index].ordem] = url })\<close>
  starting from the empty object.
\<close>

definition collect_urls :: "Slide list \<Rightarrow> string option list \<Rightarrow> (int \<rightharpoonup> string)" where
  "collect_urls sl results =
     foldl (\<lambda>urls (url, index). if truthy url then urls(ordem (sl ! index) \<mapsto> the url) else urls)
       Map.empty (zip results [0..<length results])"

text \<open>
  The body of the effect up to the first \<^verbatim>\<open>await\<close>: it runs after mounting and
  after every change of the \<^verbatim>\<open>carousel\<close> property.
\<close>

definition image_effect :: "Carousel \<Rightarrow> preview_state \<Rightarrow> preview_state" where
  "image_effect c st =
     (if isPhotoBg c
      then st\<lparr>isLoadingImages := True, in_flight := in_flight st @ [c],
               requested := requested st @ map prompt_imagem (slides c)\<rparr>
      else st)"

text \<open>
  The rest of \<^verbatim>\<open>fetchImages\<close>, run when \<^verbatim>\<open>Promise.all\<close> resolves; \<open>outcome i\<close> is
  what the promise of the \<open>i\<close>-th slide resolved to (\<^verbatim>\<open>generateImage\<close> never
  rejects), so that \<^verbatim>\<open>results\<close> has one element per slide, in slide order.
\<close>

definition fetchImages_settled ::
  "Carousel \<Rightarrow> (nat \<Rightarrow> string option) \<Rightarrow> preview_state \<Rightarrow> preview_state" where
  "fetchImages_settled c outcome st =
     (let results = map outcome [0..<length (slides c)];
          urls = collect_urls (slides c) results
      in st\<lparr>imageUrls := urls, isLoadingImages := False\<rparr>)"

definition mount :: "Carousel \<Rightarrow> preview_state" where
  "mount c =
     image_effect c
       \<lparr>carousel_prop = c, imageUrls = Map.empty, isLoadingImages = False,
        in_flight = [], requested = []\<rparr>"

text \<open>
  What can happen to a mounted preview: its \<^verbatim>\<open>carousel\<close> property is replaced by
  another object, which runs the effect again (the effect depends on \<^verbatim>\<open>[carousel]\<close>),
  or the \<open>k\<close>-th outstanding batch settles.  This is the component on its own, under
  every sequence of property changes and settlings a parent could cause; which of them
  the app causes, and the mounting and unmounting of previews, is the subject of the
  next subsection.
\<close>

datatype preview_event = Replace Carousel | Settle nat "nat \<Rightarrow> string option"

fun preview_step :: "preview_state \<Rightarrow> preview_event \<Rightarrow> preview_state" where
  "preview_step st (Replace c') = image_effect c' (st\<lparr>carousel_prop := c'\<rparr>)"
| "preview_step st (Settle k outcome) =
     (if k < length (in_flight st)
      then fetchImages_settled (in_flight st ! k) outcome
             (st\<lparr>in_flight := take k (in_flight st) @ drop (Suc k) (in_flight st)\<rparr>)
      else st)"

definition preview_run :: "preview_state \<Rightarrow> preview_event list \<Rightarrow> preview_state" where
  "preview_run st evs = foldl preview_step st evs"

subsection \<open>The previews of the app: \<^verbatim>\<open>handleGeneration\<close> and \<^verbatim>\<open>ResultsDisplay\<close>\<close>

text \<open>
  \<^verbatim>\<open>ResultsDisplay\<close> renders one \<^verbatim>\<open>CarouselPreview\<close> per carousel of the response,
  and none while \<^verbatim>\<open>isLoading\<close> is set.  \<^verbatim>\<open>handleGeneration\<close> sets \<^verbatim>\<open>isLoading\<close> and
  clears \<^verbatim>\<open>results\<close> before it awaits the response, and the submit buttons of both
  forms are disabled while \<^verbatim>\<open>isLoading\<close> is set, so that a generation starts only when
  none is running.  Hence every preview shown is unmounted when a generation starts, and
  the carousels of the response are shown by instances mounted anew; a failed generation
  shows none (\<^verbatim>\<open>ShowResults []\<close>).  The third event is the settling of the batch of the
  \<open>i\<close>-th instance ever mounted.

  The state keeps every instance ever mounted, with a flag telling whether it is still
  mounted, and the calls of \<^verbatim>\<open>setImageUrls\<close> made so far, each with the instance whose
  setter was called.
\<close>

datatype app_event =
    StartGeneration
  | ShowResults "Carousel list"
  | BatchSettles nat "nat \<Rightarrow> string option"

record app_state =
  app_isLoading :: bool
  instances :: "(bool \<times> preview_state) list"
  setImageUrls_calls :: "(nat \<times> (int \<rightharpoonup> string)) list"

text \<open>
  The continuation of \<^verbatim>\<open>fetchImages\<close> for an instance.  It runs whether the instance
  is mounted or not; the state setters it calls change the state of a mounted instance
  and leave an unmounted one as it is.
\<close>

definition settle_instance ::
  "bool \<times> preview_state \<Rightarrow> (nat \<Rightarrow> string option) \<Rightarrow> bool \<times> preview_state" where
  "settle_instance p outcome =
     (let st' = preview_step (snd p) (Settle 0 outcome)
      in (fst p, if fst p then st' else (snd p)\<lparr>in_flight := in_flight st'\<rparr>))"

fun app_step :: "app_state \<Rightarrow> app_event \<Rightarrow> app_state" where
  "app_step s StartGeneration =
     (if app_isLoading s then s
      else s\<lparr>app_isLoading := True,
             instances := map (\<lambda>(m, st). (False, st)) (instances s)\<rparr>)"
| "app_step s (ShowResults cs) =
     (if app_isLoading s
      then s\<lparr>app_isLoading := False,
             instances := instances s @ map (\<lambda>c. (True, mount c)) cs\<rparr>
      else s)"
| "app_step s (BatchSettles i outcome) =
     (if i < length (instances s) \<and> in_flight (snd (instances s ! i)) \<noteq> []
      then s\<lparr>instances := (instances s)[i := settle_instance (instances s ! i) outcome],
             setImageUrls_calls := setImageUrls_calls s
               @ [(i, imageUrls (preview_step (snd (instances s ! i)) (Settle 0 outcome)))]\<rparr>
      else s)"

definition app_init :: app_state where
  "app_init = \<lparr>app_isLoading = False, instances = [], setImageUrls_calls = []\<rparr>"

definition app_run :: "app_event list \<Rightarrow> app_state" where
  "app_run evs = foldl app_step app_init evs"

text \<open>What an instance shows: whether it is mounted, its carousel, its image map and
  its loading flag.\<close>

definition shown :: "bool \<times> preview_state \<Rightarrow> bool \<times> Carousel \<times> (int \<rightharpoonup> string) \<times> bool" where
  "shown p = (fst p, carousel_prop (snd p), imageUrls (snd p), isLoadingImages (snd p))"

text \<open>A preview whose batches and image map are those of its own carousel.\<close>

definition own_batches :: "preview_state \<Rightarrow> bool" where
  "own_batches st \<longleftrightarrow>
     (\<forall>c \<in> set (in_flight st). c = carousel_prop st)
     \<and> (imageUrls st = Map.empty
        \<or> (\<exists>outcome. imageUrls st
              = collect_urls (slides (carousel_prop st))
                  (map outcome [0..<length (slides (carousel_prop st))])))"

subsection \<open>Batch export: \<^verbatim>\<open>handleDownloadZip\<close>\<close>

text \<open>
  The files of the archive object, in insertion order.  \<^verbatim>\<open>zip.file(name, data)\<close>
  is \<^const>\<open>AList.update\<close>: a new name is added at the end, a name already there keeps
  its place and takes the new data.
\<close>

type_synonym zip_files = "(string \<times> blob) list"

definition slide_file_name :: "int \<Rightarrow> string" where
  "slide_file_name k = ''slide_'' @ num_to_string k @ ''.png''"

text \<open>
  The first part of the body of the \<^verbatim>\<open>for ... of carousel.slides\<close> loop: the
  background image of the slide is loaded when \<^verbatim>\<open>imageUrls\<close> has a truthy entry
  for its order, and the slide is rendered.
\<close>

definition slide_blob ::
  "browser \<Rightarrow> (Language \<Rightarrow> fontOption list) \<Rightarrow> Carousel \<Rightarrow> Language \<Rightarrow>
     (int \<rightharpoonup> string) \<Rightarrow> Slide \<Rightarrow> blob option" where
  "slide_blob b typography carousel language urls slide =
     (let imageUrl = urls (ordem slide);
          bgImage = (if truthy imageUrl then b_loadImage b (the imageUrl) else None)
      in renderSlideToBlob b typography slide carousel language bgImage)"

text \<open>
  The loop.  The list argument holds the slides still to visit, \<open>n\<close> counts the
  iterations done and \<open>browser_at n\<close> is the browser as the \<open>n\<close>-th iteration finds
  it.
\<close>

fun handleDownloadZip_loop ::
  "(nat \<Rightarrow> browser) \<Rightarrow> (Language \<Rightarrow> fontOption list) \<Rightarrow> Carousel \<Rightarrow> Language \<Rightarrow>
     (int \<rightharpoonup> string) \<Rightarrow> Slide list \<Rightarrow> nat \<Rightarrow> zip_files \<Rightarrow> zip_files" where
  "handleDownloadZip_loop browser_at typography carousel language urls [] n files = files"
| "handleDownloadZip_loop browser_at typography carousel language urls (slide # rest) n files =
     handleDownloadZip_loop browser_at typography carousel language urls rest (n + 1)
       (case slide_blob (browser_at n) typography carousel language urls slide of
          Some data \<Rightarrow> AList.update (slide_file_name (ordem slide)) data files
        | None \<Rightarrow> files)"

datatype export_outcome = Saved string blob | Alerted

text \<open>
  \<open>generateAsync\<close> packs the files (\<^const>\<open>None\<close> when the promise rejects, which the
  \<^verbatim>\<open>catch\<close> turns into an alert).  The result is the files of the archive object
  and what the user gets.
\<close>

definition handleDownloadZip ::
  "(nat \<Rightarrow> browser) \<Rightarrow> (zip_files \<Rightarrow> blob option) \<Rightarrow> (Language \<Rightarrow> fontOption list) \<Rightarrow>
     Carousel \<Rightarrow> Language \<Rightarrow> (int \<rightharpoonup> string) \<Rightarrow> zip_files \<times> export_outcome" where
  "handleDownloadZip browser_at generateAsync typography carousel language urls =
     (let files = handleDownloadZip_loop browser_at typography carousel language urls
                    (slides carousel) 0 []
      in case generateAsync files of
           Some content \<Rightarrow> (files, Saved (carousel_id carousel @ ''.zip'') content)
         | None \<Rightarrow> (files, Alerted))"

subsection \<open>Greedy grouping of words\<close>

text \<open>
  The layout in terms of words, used to state what \<^verbatim>\<open>wrapText\<close> computes: a line is
  a group of words, each followed by one space; \<open>greedy_pack\<close> extends the current group
  by the next word unless the extended line measures more than the width, in which case
  the group is closed and the word opens the next one.
\<close>

definition line_of :: "string list \<Rightarrow> string" where
  "line_of g = concat (map (\<lambda>w. w @ '' '') g)"

fun greedy_pack :: "(string \<Rightarrow> real) \<Rightarrow> real \<Rightarrow> string list \<Rightarrow> string list \<Rightarrow> string list list" where
  "greedy_pack m W cur [] = [cur]"
| "greedy_pack m W cur (w # ws) =
     (if m (line_of cur @ w @ '' '') > W then cur # greedy_pack m W [w] ws
      else greedy_pack m W (cur @ [w]) ws)"

definition greedy_groups :: "(string \<Rightarrow> real) \<Rightarrow> real \<Rightarrow> string list \<Rightarrow> string list list" where
  "greedy_groups m W wds = greedy_pack m W [hd wds] (tl wds)"

text \<open>Every line of two or more leading words of the group fits the width.\<close>

definition fits :: "(string \<Rightarrow> real) \<Rightarrow> real \<Rightarrow> string list \<Rightarrow> bool" where
  "fits m W g = (\<forall>k. 2 \<le> k \<and> k \<le> length g \<longrightarrow> m (line_of (take k g)) \<le> W)"

text \<open>Drawing lines one below the other, \<open>lh\<close> apart, starting at \<open>y\<close>.\<close>

fun draw_lines :: "context2d \<Rightarrow> real \<Rightarrow> real \<Rightarrow> real \<Rightarrow> string list \<Rightarrow> context2d" where
  "draw_lines c x y lh [] = c"
| "draw_lines c x y lh (l # ls) = draw_lines (fillText c l x y) x (y + lh) lh ls"

text \<open>The files the export loop adds, one per slide whose rendering yields a blob.\<close>

fun rendered_files ::
  "(nat \<Rightarrow> browser) \<Rightarrow> (Language \<Rightarrow> fontOption list) \<Rightarrow> Carousel \<Rightarrow> Language \<Rightarrow>
     (int \<rightharpoonup> string) \<Rightarrow> Slide list \<Rightarrow> nat \<Rightarrow> zip_files" where
  "rendered_files browser_at typography carousel language urls [] n = []"
| "rendered_files browser_at typography carousel language urls (slide # rest) n =
     (case slide_blob (browser_at n) typography carousel language urls slide of
        Some data \<Rightarrow> [(slide_file_name (ordem slide), data)]
      | None \<Rightarrow> [])
     @ rendered_files browser_at typography carousel language urls rest (n + 1)"

text \<open>
  The carousels a preview has been given after a run of events: the one it was mounted
  with and those of the replacements.
\<close>

definition carousels_seen :: "Carousel \<Rightarrow> preview_event list \<Rightarrow> Carousel list" where
  "carousels_seen c0 evs =
     c0 # concat (map (\<lambda>e. case e of Replace c \<Rightarrow> [c] | Settle k outcome \<Rightarrow> []) evs)"

section \<open>Properties\<close>

subsection \<open>Strings\<close>

lemma str_includes_sublist: "str_includes s sub \<longleftrightarrow> sublist sub s"
  by (induction s) (auto simp: sublist_Cons_right)

lemma carousel_colors_returns:
  "getColorPalette (optional_arg (paleta_cores carousel)) = Inr (carousel_colors carousel)"
  by (cases "paleta_cores carousel") (simp_all add: carousel_colors_def optional_arg_def getColorPalette_def)

subsection \<open>Decimal names\<close>

lemma digit_value: "d < 10 \<Longrightarrow> of_char (digit d) = 48 + d"
proof -
  assume "d < 10"
  then have "d \<in> {0, 1, 2, 3, 4, 5, 6, 7, 8, 9}" by auto
  then show ?thesis by (auto simp: digit_def)
qed

lemma digit_inj:
  assumes "d < 10" "e < 10" "digit d = digit e"
  shows "d = e"
proof -
  have "(48 + d :: nat) = of_char (digit d)"
    using assms(1) by (simp only: digit_value)
  also have "\<dots> = of_char (digit e)"
    by (simp only: assms(3))
  also have "\<dots> = 48 + e"
    using assms(2) by (simp only: digit_value)
  finally show ?thesis by simp
qed

lemma dec_not_Nil [simp]: "dec n \<noteq> []" "[] \<noteq> dec n"
  by (subst dec.simps, simp)+

lemma dec_inj: "dec m = dec n \<Longrightarrow> m = n"
proof (induction m arbitrary: n rule: dec.induct)
  case (1 m)
  show ?case
  proof (cases "m < 10")
    case m: True
    show ?thesis
    proof (cases "n < 10")
      case True
      with m "1.prems" show ?thesis by (simp add: dec.simps [of m] dec.simps [of n] digit_inj)
    next
      case False
      with m "1.prems" show ?thesis by (simp add: dec.simps [of m] dec.simps [of n])
    qed
  next
    case m: False
    show ?thesis
    proof (cases "n < 10")
      case True
      with m "1.prems" show ?thesis by (simp add: dec.simps [of m] dec.simps [of n])
    next
      case False
      with m "1.prems" have "dec (m div 10) = dec (n div 10)" "digit (m mod 10) = digit (n mod 10)"
        by (simp_all add: dec.simps [of m] dec.simps [of n])
      with "1.IH" [OF m] have "m div 10 = n div 10" "m mod 10 = n mod 10"
        by (auto intro: digit_inj)
      then show ?thesis by (metis div_mult_mod_eq)
    qed
  qed
qed

subsection \<open>Word groups and the loop of \<^verbatim>\<open>wrapText\<close>\<close>

lemma line_of_simps [simp]:
  "line_of [] = []" "line_of (w # g) = w @ '' '' @ line_of g"
  "line_of (g @ h) = line_of g @ line_of h"
  by (simp_all add: line_of_def)

lemma line_of_eq_Nil [simp]: "line_of g = [] \<longleftrightarrow> g = []"
  by (cases g) simp_all

lemma greedy_pack_not_Nil [simp]: "greedy_pack m W cur ws \<noteq> []"
  by (induction ws arbitrary: cur) auto

lemma concat_pack: "concat (greedy_pack m W cur ws) = cur @ ws"
  by (induction ws arbitrary: cur) auto

lemma greedy_pack_nonempty: "cur \<noteq> [] \<Longrightarrow> g \<in> set (greedy_pack m W cur ws) \<Longrightarrow> g \<noteq> []"
  by (induction ws arbitrary: cur) (auto split: if_splits)

lemma hd_hd_pack: "cur \<noteq> [] \<Longrightarrow> hd (hd (greedy_pack m W cur ws)) = hd cur"
  by (induction ws arbitrary: cur) auto

lemma fits_snoc:
  assumes "fits m W cur" "m (line_of cur @ w @ '' '') \<le> W"
  shows "fits m W (cur @ [w])"
  unfolding fits_def
proof (intro allI impI)
  fix k assume k: "2 \<le> k \<and> k \<le> length (cur @ [w])"
  show "m (line_of (take k (cur @ [w]))) \<le> W"
  proof (cases "k \<le> length cur")
    case True
    with k assms(1) show ?thesis by (simp add: fits_def)
  next
    case False
    with k have "take k (cur @ [w]) = cur @ [w]" by simp
    with assms(2) show ?thesis by simp
  qed
qed

lemma fits_single [simp]: "fits m W [w]"
  by (simp add: fits_def)

lemma greedy_pack_fits: "fits m W cur \<Longrightarrow> g \<in> set (greedy_pack m W cur ws) \<Longrightarrow> fits m W g"
proof (induction ws arbitrary: cur)
  case Nil
  then show ?case by simp
next
  case (Cons w ws)
  show ?case
  proof (cases "m (line_of cur @ w @ '' '') > W")
    case True
    with Cons.prems have "g = cur \<or> g \<in> set (greedy_pack m W [w] ws)" by simp
    then show ?thesis using Cons.prems(1) Cons.IH [of "[w]"] by auto
  next
    case False
    with Cons.prems have "g \<in> set (greedy_pack m W (cur @ [w]) ws)" by simp
    moreover from False Cons.prems(1) have "fits m W (cur @ [w])"
      by (intro fits_snoc) auto
    ultimately show ?thesis by (rule Cons.IH [rotated])
  qed
qed

lemma greedy_pack_breaks:
  "cur \<noteq> [] \<Longrightarrow> Suc i < length (greedy_pack m W cur ws) \<Longrightarrow>
     m (line_of (greedy_pack m W cur ws ! i) @ hd (greedy_pack m W cur ws ! Suc i) @ '' '') > W"
proof (induction ws arbitrary: cur i)
  case Nil
  then show ?case by simp
next
  case (Cons w ws)
  show ?case
  proof (cases "m (line_of cur @ w @ '' '') > W")
    case True
    show ?thesis
    proof (cases i)
      case 0
      have "hd (greedy_pack m W [w] ws) = greedy_pack m W [w] ws ! 0"
        by (simp add: hd_conv_nth)
      with True 0 hd_hd_pack [of "[w]" m W ws] show ?thesis by simp
    next
      case (Suc j)
      with True Cons.prems Cons.IH [of "[w]" j] show ?thesis by simp
    qed
  next
    case False
    with Cons.prems Cons.IH [of "cur @ [w]" i] show ?thesis by simp
  qed
qed

lemma greedy_pack_single: "cur \<noteq> [] \<Longrightarrow> fits m W (cur @ ws) \<Longrightarrow> greedy_pack m W cur ws = [cur @ ws]"
proof (induction ws arbitrary: cur)
  case Nil
  then show ?case by simp
next
  case (Cons w ws)
  have "2 \<le> Suc (length cur) \<and> Suc (length cur) \<le> length (cur @ w # ws)"
    using Cons.prems(1) by (cases cur) auto
  then have "m (line_of (take (Suc (length cur)) (cur @ w # ws))) \<le> W"
    using Cons.prems(2) unfolding fits_def by blast
  then have "\<not> m (line_of cur @ w @ '' '') > W" by simp
  moreover have "greedy_pack m W (cur @ [w]) ws = [(cur @ [w]) @ ws]"
    using Cons.prems by (intro Cons.IH) auto
  ultimately show ?case by simp
qed

lemma draw_lines_snoc:
  "draw_lines c x y lh (ls @ [l]) = fillText (draw_lines c x y lh ls) l x (y + real (length ls) * lh)"
  by (induction ls arbitrary: c y) (auto simp: algebra_simps)

lemma draw_lines_font [simp]: "font (draw_lines c x y lh ls) = font c"
  by (induction ls arbitrary: c y) (auto simp: fillText_def)

lemma draw_lines_length: "length (ops c) \<le> length (ops (draw_lines c x y lh ls))"
proof (induction ls arbitrary: c y)
  case Nil
  then show ?case by simp
next
  case (Cons l ls)
  from Cons [of "fillText c l x y" "y + lh"] show ?case
    by (simp add: fillText_def)
qed

lemma draw_lines_ops:
  "map op_text (drop (length (ops c)) (ops (draw_lines c x y lh ls))) = ls"
proof (induction ls rule: rev_induct)
  case Nil
  then show ?case by simp
next
  case (snoc l ls)
  then show ?case
    using draw_lines_length [of c x y lh ls] by (simp add: draw_lines_snoc fillText_def)
qed

lemma wrapText_loop_pack:
  "0 < n \<Longrightarrow>
   wrapText_loop metrics x W lh ws n (c, line_of cur, y, cnt) =
     (draw_lines c x y lh (map line_of (butlast (greedy_pack (metrics (font c)) W cur ws))),
      line_of (last (greedy_pack (metrics (font c)) W cur ws)),
      y + real (length (greedy_pack (metrics (font c)) W cur ws) - 1) * lh,
      cnt + (length (greedy_pack (metrics (font c)) W cur ws) - 1))"
proof (induction ws arbitrary: n c cur y cnt)
  case Nil
  then show ?case by simp
next
  case (Cons w ws)
  let ?m = "metrics (font c)"
  show ?case
  proof (cases "?m (line_of cur @ w @ '' '') > W")
    case True
    let ?c' = "fillText c (line_of cur) x y"
    have f: "font ?c' = font c" by (simp add: fillText_def)
    have "wrapText_loop metrics x W lh (w # ws) n (c, line_of cur, y, cnt)
        = wrapText_loop metrics x W lh ws (n + 1) (?c', line_of [w], y + lh, cnt + 1)"
      using True Cons.prems by simp
    also have "\<dots> = (draw_lines ?c' x (y + lh) lh (map line_of (butlast (greedy_pack ?m W [w] ws))),
      line_of (last (greedy_pack ?m W [w] ws)),
      y + lh + real (length (greedy_pack ?m W [w] ws) - 1) * lh,
      cnt + 1 + (length (greedy_pack ?m W [w] ws) - 1))"
      using Cons.IH [of "n + 1" ?c' "[w]" "y + lh" "cnt + 1"] f by simp
    finally show ?thesis using True
      by (simp add: algebra_simps of_nat_diff Suc_leI length_greater_0_conv)
  next
    case False
    have "wrapText_loop metrics x W lh (w # ws) n (c, line_of cur, y, cnt)
        = wrapText_loop metrics x W lh ws (n + 1) (c, line_of (cur @ [w]), y, cnt)"
      using False by simp
    then show ?thesis
      using False Cons.IH [of "n + 1" c "cur @ [w]" y cnt] by simp
  qed
qed

lemma split_space_not_Nil [simp]: "split_space s \<noteq> []"
  by (induction s) auto

lemma wrapText_groups:
  "wrapText metrics c str x y W lh =
     (draw_lines c x y lh (map line_of (greedy_groups (metrics (font c)) W (split_space str))),
      length (greedy_groups (metrics (font c)) W (split_space str)))"
proof -
  obtain w0 rest where sp: "split_space str = w0 # rest"
    by (cases "split_space str") auto
  define gs where "gs = greedy_pack (metrics (font c)) W [w0] rest"
  have ne: "gs \<noteq> []" by (simp add: gs_def)
  have "wrapText_loop metrics x W lh (split_space str) 0 (c, [], y, 0)
      = wrapText_loop metrics x W lh rest (Suc 0) (c, line_of [w0], y, 0)"
    by (simp add: sp)
  also have "\<dots> = (draw_lines c x y lh (map line_of (butlast gs)), line_of (last gs),
      y + real (length gs - 1) * lh, 0 + (length gs - 1))"
    unfolding gs_def by (rule wrapText_loop_pack) simp
  finally have loop: "wrapText_loop metrics x W lh (split_space str) 0 (c, [], y, 0)
      = (draw_lines c x y lh (map line_of (butlast gs)), line_of (last gs),
      y + real (length gs - 1) * lh, length gs - 1)"
    by simp
  have "map line_of gs = map line_of (butlast gs) @ [line_of (last gs)]"
    using ne by (metis append_butlast_last_id list.simps(8) list.simps(9) map_append)
  then have "draw_lines c x y lh (map line_of gs)
      = fillText (draw_lines c x y lh (map line_of (butlast gs))) (line_of (last gs)) x
          (y + real (length gs - 1) * lh)"
    by (simp add: draw_lines_snoc)
  moreover have "length gs - 1 + 1 = length gs"
    using ne by (simp add: Suc_leI)
  moreover have "greedy_groups (metrics (font c)) W (split_space str) = gs"
    by (simp add: greedy_groups_def sp gs_def)
  ultimately show ?thesis
    unfolding wrapText_def loop by simp
qed

lemma wrapText_lines_groups:
  "wrapText_lines metrics c str x y W lh =
     map line_of (greedy_groups (metrics (font c)) W (split_space str))"
  by (simp add: wrapText_lines_def wrapText_groups draw_lines_ops)

lemma split_space_no_space: "w \<in> set (split_space s) \<Longrightarrow> CHR '' '' \<notin> set w"
proof (induction s arbitrary: w)
  case Nil
  then show ?case by simp
next
  case (Cons c cs)
  show ?case
  proof (cases "c = CHR '' ''")
    case True
    with Cons show ?thesis by auto
  next
    case False
    then have "w = c # hd (split_space cs) \<or> w \<in> set (tl (split_space cs))"
      using Cons.prems by simp
    moreover have "hd (split_space cs) \<in> set (split_space cs)" by simp
    moreover have "set (tl (split_space cs)) \<subseteq> set (split_space cs)"
      by (simp add: list.set_sel(2) subsetI)
    ultimately show ?thesis using Cons.IH False by auto
  qed
qed

lemma split_space_word: "CHR '' '' \<notin> set w \<Longrightarrow> split_space w = [w]"
  by (induction w) auto

lemma split_space_append:
  "CHR '' '' \<notin> set w \<Longrightarrow> split_space (w @ CHR '' '' # s) = w # split_space s"
  by (induction w) auto

lemma split_space_line_of:
  "g \<noteq> [] \<Longrightarrow> \<forall>w \<in> set g. CHR '' '' \<notin> set w \<Longrightarrow> split_space (butlast (line_of g)) = g"
proof (induction g)
  case Nil
  then show ?case by simp
next
  case (Cons w g)
  show ?case
  proof (cases "g = []")
    case True
    with Cons.prems show ?thesis by (simp add: butlast_append split_space_word)
  next
    case False
    then have "butlast (line_of (w # g)) = w @ CHR '' '' # butlast (line_of g)"
      by (simp add: butlast_append)
    with Cons False show ?thesis by (simp add: split_space_append)
  qed
qed

lemma greedy_groups_single:
  assumes "g \<noteq> []" "fits m W g"
  shows "greedy_groups m W g = [g]"
proof -
  from assms(1) have "[hd g] @ tl g = g" by simp
  with assms(2) greedy_pack_single [of "[hd g]" m W "tl g"] show ?thesis
    by (simp add: greedy_groups_def)
qed

lemma greedy_groups_props:
  assumes "gs = greedy_groups m W (split_space str)"
  shows "concat gs = split_space str"
    and "g \<in> set gs \<Longrightarrow> g \<noteq> []"
    and "g \<in> set gs \<Longrightarrow> fits m W g"
    and "Suc i < length gs \<Longrightarrow> m (line_of (gs ! i) @ hd (gs ! Suc i) @ '' '') > W"
    and "g \<in> set gs \<Longrightarrow> w \<in> set g \<Longrightarrow> CHR '' '' \<notin> set w"
proof -
  have sp: "[hd (split_space str)] @ tl (split_space str) = split_space str" by simp
  show c: "concat gs = split_space str"
    unfolding assms greedy_groups_def concat_pack by (rule sp)
  show "g \<in> set gs \<Longrightarrow> g \<noteq> []"
    unfolding assms greedy_groups_def
    using greedy_pack_nonempty [of "[hd (split_space str)]" g] by simp
  show "g \<in> set gs \<Longrightarrow> fits m W g"
    unfolding assms greedy_groups_def
    using greedy_pack_fits [of m W "[hd (split_space str)]" g] by simp
  show "Suc i < length gs \<Longrightarrow> m (line_of (gs ! i) @ hd (gs ! Suc i) @ '' '') > W"
    unfolding assms greedy_groups_def by (rule greedy_pack_breaks) simp_all
  show "g \<in> set gs \<Longrightarrow> w \<in> set g \<Longrightarrow> CHR '' '' \<notin> set w"
  proof -
    assume "g \<in> set gs" "w \<in> set g"
    then have "w \<in> set (concat gs)" by auto
    then show ?thesis by (simp add: c split_space_no_space)
  qed
qed

lemma fits_overflow_single:
  assumes mono: "\<forall>a b c. m b \<le> m (a @ b @ c)"
    and "fits m W g" "w \<in> set g" "m (w @ '' '') > W"
  shows "g = [w]"
proof (rule ccontr)
  assume neq: "g \<noteq> [w]"
  from \<open>w \<in> set g\<close> obtain g1 g2 where g: "g = g1 @ w # g2"
    by (auto simp: in_set_conv_decomp)
  with neq have "2 \<le> length g" by (cases g1; cases g2) auto
  with \<open>fits m W g\<close> have "m (line_of (take (length g) g)) \<le> W"
    unfolding fits_def by blast
  then have "m (line_of g1 @ (w @ '' '') @ line_of g2) \<le> W" by (simp add: g)
  moreover from mono have "m (w @ '' '') \<le> m (line_of g1 @ (w @ '' '') @ line_of g2)" by blast
  ultimately show False using \<open>m (w @ '' '') > W\<close> by simp
qed



subsection \<open>The font size loop\<close>

lemma fitFontSize_props:
  "30 \<le> s \<Longrightarrow> 5 dvd (s - 30) \<Longrightarrow>
     30 \<le> fitFontSize metrics weight family str s
   \<and> fitFontSize metrics weight family str s \<le> s
   \<and> 5 dvd (s - fitFontSize metrics weight family str s)
   \<and> (fitFontSize metrics weight family str s = 30
        \<or> \<not> metrics (font_string weight (fitFontSize metrics weight family str s) family) str
             > maxTextWidth * 2.5)
   \<and> (\<forall>k. fitFontSize metrics weight family str s < k \<and> k \<le> s \<and> 5 dvd (s - k) \<longrightarrow>
          metrics (font_string weight k family) str > maxTextWidth * 2.5)"
proof (induction metrics weight family str s rule: fitFontSize.induct)
  case (1 metrics weight family str fontSize)
  define r where "r = fitFontSize metrics weight family str fontSize"
  define wide where "wide k \<longleftrightarrow> metrics (font_string weight k family) str > maxTextWidth * 2.5" for k
  have ge30: "30 \<le> fontSize" and dv30: "5 dvd (fontSize - 30)"
    using "1.prems" by blast+
  have goal: "30 \<le> r \<and> r \<le> fontSize \<and> 5 dvd (fontSize - r) \<and> (r = 30 \<or> \<not> wide r)
      \<and> (\<forall>k. r < k \<and> k \<le> fontSize \<and> 5 dvd (fontSize - k) \<longrightarrow> wide k)"
  proof (cases "wide fontSize \<and> fontSize > 30")
    case False
    then have ncond: "\<not> (metrics (font_string weight fontSize family) str > maxTextWidth * 2.5 \<and> fontSize > 30)"
      unfolding wide_def .
    have "r = fontSize"
      unfolding r_def by (subst fitFontSize.simps) (rule if_not_P [OF ncond])
    moreover from False ge30 have "fontSize = 30 \<or> \<not> wide fontSize" by linarith
    moreover have "\<forall>k. fontSize < k \<and> k \<le> fontSize \<and> 5 dvd (fontSize - k) \<longrightarrow> wide k"
      by linarith
    ultimately show ?thesis using ge30 by simp
  next
    case True
    then have cond: "metrics (font_string weight fontSize family) str > maxTextWidth * 2.5 \<and> fontSize > 30"
      unfolding wide_def .
    have r: "r = fitFontSize metrics weight family str (fontSize - 5)"
      unfolding r_def by (subst fitFontSize.simps) (rule if_P [OF cond])
    from True have gt: "fontSize > 30" by simp
    from gt dv30 have ge: "30 \<le> fontSize - 5" by presburger
    from dv30 have dv: "5 dvd (fontSize - 5 - 30)" by presburger
    have ih: "30 \<le> r \<and> r \<le> fontSize - 5 \<and> 5 dvd (fontSize - 5 - r) \<and> (r = 30 \<or> \<not> wide r)
      \<and> (\<forall>k. r < k \<and> k \<le> fontSize - 5 \<and> 5 dvd (fontSize - 5 - k) \<longrightarrow> wide k)"
      using "1.IH" [OF cond ge dv] unfolding r wide_def .
    have "wide k" if k: "r < k \<and> k \<le> fontSize \<and> 5 dvd (fontSize - k)" for k
    proof (cases "k = fontSize")
      case True
      with \<open>wide fontSize \<and> fontSize > 30\<close> show ?thesis by simp
    next
      case False
      with k have "k \<le> fontSize - 5 \<and> 5 dvd (fontSize - 5 - k)" by presburger
      with k ih show ?thesis by blast
    qed
    moreover have "5 dvd (fontSize - r)"
    proof -
      from ih have "5 dvd (fontSize - 5 - r)" by blast
      then show ?thesis by presburger
    qed
    moreover have "r \<le> fontSize" using ih by linarith
    ultimately show ?thesis using ih by blast
  qed
  then show ?case
    unfolding r_def wide_def .
qed

lemma wrap_thresholds: "maxTextWidth * 2.5 = 2295" "maxTextWidth = 918"
  by (simp_all add: maxTextWidth_def canvas_size_def)

lemma wrapText_font [simp]: "font (fst (wrapText metrics c str x y W lh)) = font c"
  by (simp add: wrapText_groups)


section \<open>The claims\<close>

subsection \<open>Style resolution\<close>




text \<open>
  The defaults.  For every typography token that is not the \<^verbatim>\<open>value\<close> of an entry of
  the catalog of the language, the empty token included, \<^verbatim>\<open>getFontDetails\<close> returns the
  default family, weight 700 and no case transform, and it has no failing path;
  \<^verbatim>\<open>getColorPalette\<close> returns the light palette for an argument left out or
  \<^verbatim>\<open>undefined\<close>, for the empty token and for every token containing no marker.
\<close>

lemma style_defaults:
  "(typographyName \<notin> opt_value ` set (typography lang) \<longrightarrow>
      getFontDetails typography typographyName lang
        = \<lparr>fontFamily = [CHR 0x27] @ ''Montserrat'' @ [CHR 0x27] @ '', sans-serif'',
           textTransform = tt_none, fontWeight = ''700''\<rparr>)
   \<and> getColorPalette Undefined = Inr \<lparr>bg = ''#F3EAD3'', text_color = ''#3A3A3A''\<rparr>
   \<and> getColorPalette (Str []) = Inr \<lparr>bg = ''#F3EAD3'', text_color = ''#3A3A3A''\<rparr>
   \<and> (\<not> sublist ''Escuro'' p \<and> \<not> sublist ''Dark'' p
        \<and> \<not> sublist ''Vibrante'' p \<and> \<not> sublist ''Vibrant'' p
        \<and> \<not> sublist ''Neutro'' p \<and> \<not> sublist ''Neutral'' p \<longrightarrow>
       getColorPalette (Str p) = Inr \<lparr>bg = ''#F3EAD3'', text_color = ''#3A3A3A''\<rparr>)"
proof -
  have "find (\<lambda>f. opt_value f = typographyName) (typography lang) = None"
    if "typographyName \<notin> opt_value ` set (typography lang)"
    using that by (auto simp: find_None_iff)
  then have "typographyName \<notin> opt_value ` set (typography lang) \<longrightarrow>
      getFontDetails typography typographyName lang = defaultFont"
    by (simp add: getFontDetails_def)
  then show ?thesis
    by (simp add: defaultFont_def getColorPalette_def str_includes_sublist)
qed

text \<open>
  Claim C4 fails in the code.  The absent palette token is not always answered by the
  default: the default parameter of \<^verbatim>\<open>getColorPalette\<close> stands in for \<^verbatim>\<open>undefined\<close>
  only, so that for \<^verbatim>\<open>null\<close>, which the schema of the response allows for
  \<^verbatim>\<open>paleta_cores\<close>, the first \<^verbatim>\<open>paletteName.includes\<close> throws a \<^verbatim>\<open>TypeError\<close>, while
  an argument left out gets the light pair.
\<close>

theorem getColorPalette_null_raises:
  "getColorPalette Null = Inl TypeError
   \<and> getColorPalette Undefined = Inr \<lparr>bg = ''#F3EAD3'', text_color = ''#3A3A3A''\<rparr>"
  by (simp add: getColorPalette_def)

subsection \<open>Text layout\<close>

text \<open>
  Claim C5.  \<^verbatim>\<open>wrapText\<close> is greedy.  The lines it draws are the groups \<open>gs\<close> of a
  partition of the words of the text into consecutive non-empty groups, each word
  followed by one space, so that no word is split, dropped or reordered, and the number
  it returns is the number of lines.  Within a group every line of two or more leading
  words measures at most \<open>maxWidth\<close> (words are added while the line fits); a group ends
  exactly where the line extended by the next word would measure more than \<open>maxWidth\<close>,
  and that word starts the next group.  When a text never measures less than a part of
  it, a word that alone is wider than \<open>maxWidth\<close> is a line of its own.
\<close>

theorem wrapText_greedy:
  "\<exists>gs. wrapText_lines metrics c str x y maxWidth lineHeight = map line_of gs
       \<and> snd (wrapText metrics c str x y maxWidth lineHeight) = length gs
       \<and> concat gs = split_space str
       \<and> (\<forall>g \<in> set gs. g \<noteq> [])
       \<and> (\<forall>g \<in> set gs. \<forall>k. 2 \<le> k \<and> k \<le> length g \<longrightarrow>
             metrics (font c) (line_of (take k g)) \<le> maxWidth)
       \<and> (\<forall>i. Suc i < length gs \<longrightarrow>
             metrics (font c) (line_of (gs ! i) @ hd (gs ! Suc i) @ '' '') > maxWidth)
       \<and> ((\<forall>a b d. metrics (font c) b \<le> metrics (font c) (a @ b @ d)) \<longrightarrow>
            (\<forall>g \<in> set gs. \<forall>w \<in> set g. metrics (font c) (w @ '' '') > maxWidth \<longrightarrow> g = [w]))"
proof -
  define gs where "gs = greedy_groups (metrics (font c)) maxWidth (split_space str)"
  note p = greedy_groups_props [OF gs_def]
  have "wrapText_lines metrics c str x y maxWidth lineHeight = map line_of gs"
    by (simp add: wrapText_lines_groups gs_def)
  moreover have "snd (wrapText metrics c str x y maxWidth lineHeight) = length gs"
    by (simp add: wrapText_groups gs_def)
  moreover have "\<forall>g \<in> set gs. \<forall>k. 2 \<le> k \<and> k \<le> length g \<longrightarrow>
             metrics (font c) (line_of (take k g)) \<le> maxWidth"
    using p(3) unfolding fits_def by blast
  moreover have "(\<forall>a b d. metrics (font c) b \<le> metrics (font c) (a @ b @ d)) \<longrightarrow>
            (\<forall>g \<in> set gs. \<forall>w \<in> set g. metrics (font c) (w @ '' '') > maxWidth \<longrightarrow> g = [w])"
    using p(3) fits_overflow_single [of "metrics (font c)" maxWidth] by blast
  ultimately show ?thesis using p(1) p(2) p(4) by blast
qed

theorem wrapText_greedy_witness:
  "wrapText_lines (\<lambda>f s. real (length s)) new_context ''aa bbbbbbb c d'' 540 540 6 84
     = [''aa '', ''bbbbbbb '', ''c d '']
   \<and> (\<exists>gs. map line_of gs = [''aa '', ''bbbbbbb '', ''c d '']
         \<and> concat gs = [''aa'', ''bbbbbbb'', ''c'', ''d'']
         \<and> (\<forall>g \<in> set gs. g \<noteq> [])
         \<and> (\<forall>g \<in> set gs. \<forall>w \<in> set g. 6 < real (length (w @ '' '')) \<longrightarrow> g = [w]))"
proof -
  define M where "M = (\<lambda>(f::string) (s::string). real (length s))"
  define T where "T = ''aa bbbbbbb c d''"
  have lines: "wrapText_lines M new_context T 540 540 6 84 = [''aa '', ''bbbbbbb '', ''c d '']"
    by (simp add: wrapText_lines_groups greedy_groups_def M_def T_def)
  have words: "split_space T = [''aa'', ''bbbbbbb'', ''c'', ''d'']"
    by (simp add: T_def)
  have mono: "\<forall>a b d. M (font new_context) b \<le> M (font new_context) (a @ b @ d)"
    by (simp add: M_def)
  from wrapText_greedy [of M new_context T 540 540 6 84]
  obtain gs where gs: "wrapText_lines M new_context T 540 540 6 84 = map line_of gs
       \<and> snd (wrapText M new_context T 540 540 6 84) = length gs
       \<and> concat gs = split_space T
       \<and> (\<forall>g \<in> set gs. g \<noteq> [])
       \<and> (\<forall>g \<in> set gs. \<forall>k. 2 \<le> k \<and> k \<le> length g \<longrightarrow>
             M (font new_context) (line_of (take k g)) \<le> 6)
       \<and> (\<forall>i. Suc i < length gs \<longrightarrow>
             M (font new_context) (line_of (gs ! i) @ hd (gs ! Suc i) @ '' '') > 6)
       \<and> ((\<forall>a b d. M (font new_context) b \<le> M (font new_context) (a @ b @ d)) \<longrightarrow>
            (\<forall>g \<in> set gs. \<forall>w \<in> set g. M (font new_context) (w @ '' '') > 6 \<longrightarrow> g = [w]))"
    ..
  note g1 = gs [THEN conjunct1]
  note g3 = gs [THEN conjunct2, THEN conjunct2, THEN conjunct1]
  note g4 = gs [THEN conjunct2, THEN conjunct2, THEN conjunct2, THEN conjunct1]
  note g7 = gs [THEN conjunct2, THEN conjunct2, THEN conjunct2, THEN conjunct2, THEN conjunct2,
    THEN conjunct2]
  from g7 mono have single:
    "\<forall>g \<in> set gs. \<forall>w \<in> set g. 6 < M (font new_context) (w @ '' '') \<longrightarrow> g = [w]"
    by (rule mp)
  from g1 lines have l: "map line_of gs = [''aa '', ''bbbbbbb '', ''c d '']"
    by (simp only:)
  from g3 words have w: "concat gs = [''aa'', ''bbbbbbb'', ''c'', ''d'']"
    by (simp only:)
  from single have s: "\<forall>g \<in> set gs. \<forall>w \<in> set g. 6 < real (length (w @ '' '')) \<longrightarrow> g = [w]"
    unfolding M_def .
  have "\<exists>gs. map line_of gs = [''aa '', ''bbbbbbb '', ''c d '']
         \<and> concat gs = [''aa'', ''bbbbbbb'', ''c'', ''d'']
         \<and> (\<forall>g \<in> set gs. g \<noteq> [])
         \<and> (\<forall>g \<in> set gs. \<forall>w \<in> set g. 6 < real (length (w @ '' '')) \<longrightarrow> g = [w])"
    by (rule exI [of _ gs]) (intro conjI l w g4 s)
  with lines show ?thesis
    unfolding M_def T_def by (rule conjI)
qed

lemma line_of_split_space: "line_of (split_space s) = s @ '' ''"
proof (induction s)
  case Nil
  then show ?case by simp
next
  case (Cons c cs)
  have "hd (split_space cs) # tl (split_space cs) = split_space cs" by simp
  then have "line_of (split_space cs) = hd (split_space cs) @ '' '' @ line_of (tl (split_space cs))"
    by (metis line_of_simps(2))
  with Cons show ?case by simp
qed

lemma concat_wrapText_lines:
  "concat (wrapText_lines metrics c str x y maxWidth lineHeight) = str @ '' ''"
proof -
  define gs where "gs = greedy_groups (metrics (font c)) maxWidth (split_space str)"
  have "concat (map line_of gs) = line_of (concat gs)"
    by (induction gs) simp_all
  also have "\<dots> = line_of (split_space str)"
    by (simp add: greedy_groups_props(1) [OF gs_def])
  finally show ?thesis
    by (simp add: wrapText_lines_groups gs_def line_of_split_space)
qed

lemma wrapText_lines_font:
  "font c' = font c \<Longrightarrow>
   wrapText_lines metrics c' str x' y' maxWidth lineHeight'
     = wrapText_lines metrics c str x y maxWidth lineHeight"
  by (simp add: wrapText_lines_groups)

lemma concat_map_single: "\<forall>x \<in> set xs. f x = [x] \<Longrightarrow> concat (map f xs) = xs"
  by (induction xs) simp_all

text \<open>
  Claim C6, as the code has it.  Every line that \<^verbatim>\<open>wrapText\<close> draws ends with the
  space that follows its last word.  Wrapping a drawn line again without that final
  space, at the same width and with the same font, draws exactly that line and nothing
  else; so wrapping the drawn lines again, each without its final space, reproduces the
  lines, and so does wrapping their concatenation without its final space.
\<close>

theorem wrapText_rewrap:
  assumes "font c' = font c"
  shows "(\<forall>l \<in> set (wrapText_lines metrics c str x y maxWidth lineHeight).
            wrapText_lines metrics c' (butlast l) x' y' maxWidth lineHeight' = [l])
       \<and> concat (map (\<lambda>l. wrapText_lines metrics c' (butlast l) x' y' maxWidth lineHeight')
            (wrapText_lines metrics c str x y maxWidth lineHeight))
           = wrapText_lines metrics c str x y maxWidth lineHeight
       \<and> wrapText_lines metrics c'
            (butlast (concat (wrapText_lines metrics c str x y maxWidth lineHeight)))
            x' y' maxWidth lineHeight'
           = wrapText_lines metrics c str x y maxWidth lineHeight"
proof -
  define gs where "gs = greedy_groups (metrics (font c)) maxWidth (split_space str)"
  note p = greedy_groups_props [OF gs_def]
  let ?lines = "wrapText_lines metrics c str x y maxWidth lineHeight"
  have one: "wrapText_lines metrics c' (butlast l) x' y' maxWidth lineHeight' = [l]"
    if "l \<in> set ?lines" for l
  proof -
    from that obtain g where g: "g \<in> set gs" "l = line_of g"
      by (auto simp: wrapText_lines_groups gs_def)
    have "split_space (butlast l) = g"
      unfolding g(2) using p(2) p(5) g(1) by (intro split_space_line_of) auto
    moreover have "greedy_groups (metrics (font c)) maxWidth g = [g]"
      using p(2) p(3) g(1) by (intro greedy_groups_single) auto
    ultimately show ?thesis
      by (simp add: wrapText_lines_groups assms g(2))
  qed
  then have two: "concat (map (\<lambda>l. wrapText_lines metrics c' (butlast l) x' y' maxWidth lineHeight')
      ?lines) = ?lines"
    by (intro concat_map_single ballI)
  have three: "wrapText_lines metrics c' (butlast (concat ?lines)) x' y' maxWidth lineHeight' = ?lines"
    by (simp add: concat_wrapText_lines wrapText_lines_font [OF assms])
  from one two three show ?thesis by blast
qed

theorem wrapText_rewrap_witness:
  "wrapText_lines (\<lambda>f s. real (length s)) new_context ''aa bbbbbbb c d'' 540 540 6 84
      = [''aa '', ''bbbbbbb '', ''c d '']
   \<and> wrapText_lines (\<lambda>f s. real (length s)) new_context ''c d'' 0 0 6 1 = [''c d '']
   \<and> wrapText_lines (\<lambda>f s. real (length s)) new_context (butlast ''aa bbbbbbb c d '') 0 0 6 1
      = [''aa '', ''bbbbbbb '', ''c d '']"
proof -
  define M where "M = (\<lambda>(f::string) (s::string). real (length s))"
  define T where "T = ''aa bbbbbbb c d''"
  have lines: "wrapText_lines M new_context T 540 540 6 84 = [''aa '', ''bbbbbbb '', ''c d '']"
    by (simp add: wrapText_lines_groups greedy_groups_def M_def T_def)
  note inst = wrapText_rewrap [OF refl, of M new_context T 540 540 6 84 0 0 1]
  have mem: "''c d '' \<in> set (wrapText_lines M new_context T 540 540 6 84)"
    unfolding lines by simp
  from inst [THEN conjunct1, rule_format, OF mem]
  have a: "wrapText_lines M new_context ''c d'' 0 0 6 1 = [''c d '']"
    by simp
  from inst [THEN conjunct2, THEN conjunct2]
  have b: "wrapText_lines M new_context (butlast ''aa bbbbbbb c d '') 0 0 6 1
      = [''aa '', ''bbbbbbb '', ''c d '']"
    unfolding lines by simp
  from lines a b show ?thesis
    unfolding M_def T_def by (intro conjI)
qed

text \<open>
  Claim C6 as stated fails for the lines as they are drawn.  With every character one
  unit wide and a width of 4, the text \<^verbatim>\<open>a b\<close> is drawn as the single line
  \<^verbatim>\<open>a b\<close> plus its final space, which measures exactly 4; wrapping that line again
  finds the empty word after the final space, and the line extended by it measures 5, so
  a second line holding one space is drawn.  Wrapping the drawn lines one by one and
  wrapping their concatenation both give these two lines.
\<close>

theorem wrapText_rewrap_counterexample:
  "concat (map (\<lambda>l. wrapText_lines (\<lambda>f s. real (length s)) new_context l 0 0 4 1)
      (wrapText_lines (\<lambda>f s. real (length s)) new_context ''a b'' 0 0 4 1))
    \<noteq> wrapText_lines (\<lambda>f s. real (length s)) new_context ''a b'' 0 0 4 1
   \<and> wrapText_lines (\<lambda>f s. real (length s)) new_context
        (concat (wrapText_lines (\<lambda>f s. real (length s)) new_context ''a b'' 0 0 4 1)) 0 0 4 1
    \<noteq> wrapText_lines (\<lambda>f s. real (length s)) new_context ''a b'' 0 0 4 1
   \<and> wrapText_lines (\<lambda>f s. real (length s)) new_context ''a b'' 0 0 4 1 = [''a b '']
   \<and> wrapText_lines (\<lambda>f s. real (length s)) new_context ''a b '' 0 0 4 1 = [''a b '', '' '']"
  by (simp add: wrapText_lines_groups greedy_groups_def)

subsection \<open>Font size fitting\<close>

text \<open>
  Claim C7.  The base font size is 90 for a cover slide and 70 for a content or
  call-to-action slide.  The threshold is 2.5 times 85 percent of the canvas width of
  1080.  From the base size the loop goes down in steps of 5: the size it ends with is
  at least 30 and at most the base size, differs from the base size by a multiple of 5,
  is 30 or a size at which the unwrapped text measures no more than the threshold, and at
  every size visited before it the text measured more than the threshold.  The font of
  the canvas after rendering is the font of that size.
\<close>

theorem fitFontSize_bounds:
  "baseFontSize capa = 90 \<and> baseFontSize conteudo = 70 \<and> baseFontSize cta = 70
   \<and> maxTextWidth * 2.5 = 2.5 * (0.85 * 1080)
   \<and> 30 \<le> fitFontSize metrics weight family str (baseFontSize t)
   \<and> fitFontSize metrics weight family str (baseFontSize t) \<le> baseFontSize t
   \<and> 5 dvd (baseFontSize t - fitFontSize metrics weight family str (baseFontSize t))
   \<and> (fitFontSize metrics weight family str (baseFontSize t) = 30
        \<or> metrics (font_string weight (fitFontSize metrics weight family str (baseFontSize t)) family) str
             \<le> maxTextWidth * 2.5)
   \<and> (\<forall>k. fitFontSize metrics weight family str (baseFontSize t) < k \<and> k \<le> baseFontSize t
            \<and> 5 dvd (baseFontSize t - k) \<longrightarrow>
          metrics (font_string weight k family) str > maxTextWidth * 2.5)
   \<and> (let d = getFontDetails typography (case tipografia carousel of None \<Rightarrow> [] | Some s \<Rightarrow> s) language;
           s = (if textTransform d = tt_uppercase then b_toUpperCase b (frase slide) else frase slide)
       in font (canvas_context (render_canvas b typography slide carousel language bgImage))
            = font_string (fontWeight d)
                (fitFontSize (b_measureText b) (fontWeight d) (fontFamily d) s (baseFontSize (tipo slide)))
                (fontFamily d))"
proof -
  have base: "30 \<le> baseFontSize t" "5 dvd (baseFontSize t - 30)"
    by (simp_all add: baseFontSize_def)
  note p = fitFontSize_props [OF base, of metrics weight family str]
  have "baseFontSize capa = 90 \<and> baseFontSize conteudo = 70 \<and> baseFontSize cta = 70"
    by (simp add: baseFontSize_def)
  moreover have "maxTextWidth * 2.5 = 2.5 * (0.85 * 1080)"
    by (simp add: maxTextWidth_def canvas_size_def)
  moreover have "let d = getFontDetails typography (case tipografia carousel of None \<Rightarrow> [] | Some s \<Rightarrow> s) language;
           s = (if textTransform d = tt_uppercase then b_toUpperCase b (frase slide) else frase slide)
       in font (canvas_context (render_canvas b typography slide carousel language bgImage))
            = font_string (fontWeight d)
                (fitFontSize (b_measureText b) (fontWeight d) (fontFamily d) s (baseFontSize (tipo slide)))
                (fontFamily d)"
    by (simp add: render_canvas_def Let_def)
  ultimately show ?thesis
    using p unfolding not_less by (intro conjI) blast+
qed

theorem fitFontSize_bounds_witness:
  "fitFontSize (\<lambda>f s. if f = ''700 70px Arial'' \<or> f = ''700 65px Arial'' then 3000 else 10)
      ''700'' ''Arial'' ''hello'' (baseFontSize conteudo) = 60
   \<and> (60::int) < 65 \<and> (65::int) \<le> baseFontSize conteudo \<and> (5::int) dvd (baseFontSize conteudo - 65)
   \<and> maxTextWidth * 2.5
        < (\<lambda>f s. if f = ''700 70px Arial'' \<or> f = ''700 65px Arial'' then 3000 else 10)
            (font_string ''700'' 65 ''Arial'') ''hello''"
proof -
  define M where "M = (\<lambda>(f::string) (s::string).
    if f = ''700 70px Arial'' \<or> f = ''700 65px Arial'' then 3000 else (10::real))"
  have fs: "font_string ''700'' 70 ''Arial'' = ''700 70px Arial''"
    "font_string ''700'' 65 ''Arial'' = ''700 65px Arial''"
    "font_string ''700'' 60 ''Arial'' = ''700 60px Arial''"
    by (simp_all add: font_string_def num_to_string_def dec.simps digit_def)
  have "fitFontSize M ''700'' ''Arial'' ''hello'' 60 = 60"
    by (subst fitFontSize.simps) (simp add: fs M_def maxTextWidth_def canvas_size_def)
  then have "fitFontSize M ''700'' ''Arial'' ''hello'' 65 = 60"
    by (subst fitFontSize.simps) (simp add: fs M_def maxTextWidth_def canvas_size_def)
  then have "fitFontSize M ''700'' ''Arial'' ''hello'' 70 = 60"
    by (subst fitFontSize.simps) (simp add: fs M_def maxTextWidth_def canvas_size_def)
  then have r: "fitFontSize M ''700'' ''Arial'' ''hello'' (baseFontSize conteudo) = 60"
    by (simp add: baseFontSize_def)
  have k: "fitFontSize M ''700'' ''Arial'' ''hello'' (baseFontSize conteudo) < 65
      \<and> 65 \<le> baseFontSize conteudo \<and> 5 dvd (baseFontSize conteudo - 65)"
    unfolding r by (simp add: baseFontSize_def)
  from fitFontSize_bounds [of M "''700''" "''Arial''" "''hello''" conteudo,
      THEN conjunct2, THEN conjunct2, THEN conjunct2, THEN conjunct2, THEN conjunct2,
      THEN conjunct2, THEN conjunct2, THEN conjunct2, THEN conjunct1, rule_format, OF k]
  have "maxTextWidth * 2.5 < M (font_string ''700'' 65 ''Arial'') ''hello''" .
  with r k show ?thesis
    unfolding M_def by simp
qed


subsection \<open>Batch export\<close>

lemma digit_not_minus: "d < 10 \<Longrightarrow> digit d \<noteq> CHR ''-''"
proof
  assume "d < 10" "digit d = CHR ''-''"
  then have "(48 + d :: nat) = of_char (CHR ''-'')"
    using digit_value [of d] by (simp only:)
  then show False by simp
qed

lemma dec_no_minus: "CHR ''-'' \<notin> set (dec n)"
proof (induction n rule: dec.induct)
  case (1 n)
  show ?case
  proof (cases "n < 10")
    case True
    then show ?thesis
      using digit_not_minus [of n] by (subst dec.simps) auto
  next
    case False
    moreover have "digit (n mod 10) \<noteq> CHR ''-''"
      by (rule digit_not_minus) simp
    ultimately show ?thesis
      using "1.IH" by (subst dec.simps) auto
  qed
qed

lemma num_to_string_inj: "num_to_string j = num_to_string k \<Longrightarrow> j = k"
proof -
  assume eq: "num_to_string j = num_to_string k"
  have neq: "CHR ''-'' # dec a \<noteq> dec b" for a b
    using dec_no_minus [of b] by (metis list.set_intros(1))
  show ?thesis
  proof (cases "j < 0")
    case j: True
    show ?thesis
    proof (cases "k < 0")
      case True
      with j eq have "nat (- j) = nat (- k)"
        by (auto simp: num_to_string_def dest: dec_inj)
      with j True show ?thesis by simp
    next
      case False
      with j eq neq show ?thesis by (simp add: num_to_string_def)
    qed
  next
    case j: False
    show ?thesis
    proof (cases "k < 0")
      case True
      with j eq neq [of "nat (- k)" "nat j"] show ?thesis by (simp add: num_to_string_def)
    next
      case False
      with j eq have "nat j = nat k"
        by (auto simp: num_to_string_def dest: dec_inj)
      with j False show ?thesis by simp
    qed
  qed
qed

lemma slide_file_name_eq [simp]: "slide_file_name j = slide_file_name k \<longleftrightarrow> j = k"
  by (auto simp: slide_file_name_def dest: num_to_string_inj)

lemma inj_slide_file_name: "inj slide_file_name"
  by (rule injI) simp

lemma update_new_key: "k \<notin> fst ` set al \<Longrightarrow> AList.update k v al = al @ [(k, v)]"
  by (induction al) auto

lemma loop_keys:
  "fst ` set (handleDownloadZip_loop browser_at typography carousel language urls sl n files)
     = fst ` set files \<union> fst ` set (rendered_files browser_at typography carousel language urls sl n)"
proof (induction sl arbitrary: n files)
  case Nil
  then show ?case by simp
next
  case (Cons slide rest)
  show ?case
    by (cases "slide_blob (browser_at n) typography carousel language urls slide")
      (auto simp: Cons dom_update)
qed

lemma loop_distinct:
  "distinct (map fst (files @ rendered_files browser_at typography carousel language urls sl n)) \<Longrightarrow>
   handleDownloadZip_loop browser_at typography carousel language urls sl n files
     = files @ rendered_files browser_at typography carousel language urls sl n"
proof (induction sl arbitrary: n files)
  case Nil
  then show ?case by simp
next
  case (Cons slide rest)
  show ?case
  proof (cases "slide_blob (browser_at n) typography carousel language urls slide")
    case None
    with Cons.prems Cons.IH [of files "n + 1"] show ?thesis by simp
  next
    case (Some data)
    let ?k = "slide_file_name (ordem slide)"
    from Cons.prems Some have new: "?k \<notin> fst ` set files" by auto
    have "distinct (map fst ((files @ [(?k, data)])
        @ rendered_files browser_at typography carousel language urls rest (n + 1)))"
      using Cons.prems Some by simp
    from Cons.IH [OF this] Some new show ?thesis
      by (simp add: update_new_key)
  qed
qed

lemma rendered_files_keys:
  "fst ` set (rendered_files browser_at typography carousel language urls sl n)
     = {slide_file_name (ordem (sl ! i)) | i.
          i < length sl \<and> slide_blob (browser_at (n + i)) typography carousel language urls (sl ! i) \<noteq> None}"
proof (induction sl arbitrary: n)
  case Nil
  then show ?case by simp
next
  case (Cons slide rest)
  let ?P = "\<lambda>sl n i. i < length sl
    \<and> slide_blob (browser_at (n + i)) typography carousel language urls (sl ! i) \<noteq> None"
  have split: "{slide_file_name (ordem ((slide # rest) ! i)) | i. ?P (slide # rest) n i}
      = (if slide_blob (browser_at n) typography carousel language urls slide \<noteq> None
         then {slide_file_name (ordem slide)} else {})
        \<union> {slide_file_name (ordem (rest ! i)) | i. ?P rest (n + 1) i}"
    (is "?L = ?H \<union> ?R")
  proof (intro set_eqI iffI)
    fix x assume "x \<in> ?L"
    then obtain i where i: "x = slide_file_name (ordem ((slide # rest) ! i))" "?P (slide # rest) n i"
      by blast
    show "x \<in> ?H \<union> ?R"
    proof (cases i)
      case 0
      with i show ?thesis by simp
    next
      case (Suc j)
      with i have "x = slide_file_name (ordem (rest ! j))" "?P rest (n + 1) j" by simp_all
      then show ?thesis by blast
    qed
  next
    fix x assume "x \<in> ?H \<union> ?R"
    then consider "x \<in> ?H" | "x \<in> ?R" by blast
    then show "x \<in> ?L"
    proof cases
      case 1
      then have "x = slide_file_name (ordem ((slide # rest) ! 0))" "?P (slide # rest) n 0"
        by (simp_all split: if_splits)
      then show ?thesis by blast
    next
      case 2
      then obtain j where "x = slide_file_name (ordem (rest ! j))" "?P rest (n + 1) j" by blast
      then have "x = slide_file_name (ordem ((slide # rest) ! Suc j))" "?P (slide # rest) n (Suc j)"
        by simp_all
      then show ?thesis by blast
    qed
  qed
  show ?case
    unfolding split
    by (cases "slide_blob (browser_at n) typography carousel language urls slide")
      (simp_all add: Cons image_Un)
qed

lemma rendered_files_distinct:
  "distinct (map ordem sl) \<Longrightarrow>
   distinct (map fst (rendered_files browser_at typography carousel language urls sl n))"
proof (induction sl arbitrary: n)
  case Nil
  then show ?case by simp
next
  case (Cons slide rest)
  have "slide_file_name (ordem slide)
      \<notin> fst ` set (rendered_files browser_at typography carousel language urls rest (n + 1))"
    using Cons.prems by (auto simp: rendered_files_keys)
  with Cons show ?case
    by (cases "slide_blob (browser_at n) typography carousel language urls slide") auto
qed

lemma rendered_files_map_of:
  "distinct (map ordem sl) \<Longrightarrow> i < length sl \<Longrightarrow>
   map_of (rendered_files browser_at typography carousel language urls sl n)
       (slide_file_name (ordem (sl ! i)))
     = slide_blob (browser_at (n + i)) typography carousel language urls (sl ! i)"
proof (induction sl arbitrary: n i)
  case Nil
  then show ?case by simp
next
  case (Cons slide rest)
  show ?case
  proof (cases i)
    case 0
    have "slide_file_name (ordem slide)
        \<notin> fst ` set (rendered_files browser_at typography carousel language urls rest (n + 1))"
      using Cons.prems(1) by (auto simp: rendered_files_keys)
    then have "map_of (rendered_files browser_at typography carousel language urls rest (n + 1))
        (slide_file_name (ordem slide)) = None"
      by (simp add: map_of_eq_None_iff)
    with 0 show ?thesis
      by (cases "slide_blob (browser_at n) typography carousel language urls slide")
        (simp_all add: map_add_def)
  next
    case (Suc j)
    with Cons.prems have j: "j < length rest" by simp
    then have "rest ! j \<in> set rest" by simp
    then have "ordem (rest ! j) \<in> ordem ` set rest" by (rule imageI)
    moreover from Cons.prems(1) have "ordem slide \<notin> ordem ` set rest" by simp
    ultimately have "ordem (rest ! j) \<noteq> ordem slide" by metis
    with j Cons.prems Cons.IH [of j "n + 1"] Suc show ?thesis
      by (cases "slide_blob (browser_at n) typography carousel language urls slide")
        (simp_all add: map_add_def)
  qed
qed

lemma rendered_files_all:
  "\<forall>i < length sl. slide_blob (browser_at (n + i)) typography carousel language urls (sl ! i) \<noteq> None \<Longrightarrow>
   map fst (rendered_files browser_at typography carousel language urls sl n)
     = map (\<lambda>s. slide_file_name (ordem s)) sl"
proof (induction sl arbitrary: n)
  case Nil
  then show ?case by simp
next
  case (Cons slide rest)
  from Cons.prems have "slide_blob (browser_at n) typography carousel language urls slide \<noteq> None"
    by fastforce
  moreover from Cons.prems
  have "\<forall>i < length rest. slide_blob (browser_at (n + 1 + i)) typography carousel language urls (rest ! i) \<noteq> None"
    by fastforce
  ultimately show ?case
    using Cons.IH [of "n + 1"] by auto
qed

lemma slide_blob_Some:
  "b_getContext b \<Longrightarrow> \<forall>cv. b_toBlob b cv \<noteq> None \<Longrightarrow>
   slide_blob b typography carousel language urls slide \<noteq> None"
  by (simp add: slide_blob_def renderSlideToBlob_def Let_def)

lemma slide_blob_no_context:
  "\<not> b_getContext b \<Longrightarrow> slide_blob b typography carousel language urls slide = None"
  by (simp add: slide_blob_def renderSlideToBlob_def Let_def)

lemma handleDownloadZip_files:
  "distinct (map ordem (slides c)) \<Longrightarrow>
   fst (handleDownloadZip browser_at generateAsync typography c language urls)
     = rendered_files browser_at typography c language urls (slides c) 0"
  using loop_distinct [of "[]" browser_at typography c language urls "slides c" 0]
  by (simp add: handleDownloadZip_def Let_def rendered_files_distinct split: option.splits)

lemma handleDownloadZip_keys:
  "fst ` set (fst (handleDownloadZip browser_at generateAsync typography c language urls))
     = {slide_file_name (ordem (slides c ! i)) | i.
          i < length (slides c)
          \<and> slide_blob (browser_at i) typography c language urls (slides c ! i) \<noteq> None}"
  using loop_keys [of browser_at typography c language urls "slides c" 0 "[]"]
    rendered_files_keys [of browser_at typography c language urls "slides c" 0]
  by (simp add: handleDownloadZip_def Let_def split: option.splits)

text \<open>
  Claim C1, as the code has it.  The loop visits \<^verbatim>\<open>carousel.slides\<close> in the order in
  which the array stores them; nothing sorts it.  For a carousel of \<open>N\<close> slides whose
  orders are the numbers 1 to \<open>N\<close>, in a browser in which every slide is rendered to a
  blob, the archive gets exactly \<open>N\<close> files, with pairwise different names, which are
  \<^verbatim>\<open>slide_1.png\<close> to \<^verbatim>\<open>slide_N.png\<close>; they are added in the storage order of the
  slides, which is the ascending order when the array is stored in ascending order.
\<close>

theorem export_storage_order:
  assumes "\<forall>n. b_getContext (browser_at n) \<and> (\<forall>cv. b_toBlob (browser_at n) cv \<noteq> None)"
    and "set (map ordem (slides c)) = {1..int N}"
    and "length (slides c) = N"
  shows "map fst (fst (handleDownloadZip browser_at generateAsync typography c language urls))
           = map (\<lambda>s. slide_file_name (ordem s)) (slides c)
       \<and> length (fst (handleDownloadZip browser_at generateAsync typography c language urls)) = N
       \<and> fst ` set (fst (handleDownloadZip browser_at generateAsync typography c language urls))
           = slide_file_name ` {1..int N}
       \<and> distinct (map fst (fst (handleDownloadZip browser_at generateAsync typography c language urls)))
       \<and> (sorted (map ordem (slides c)) \<longrightarrow>
            map fst (fst (handleDownloadZip browser_at generateAsync typography c language urls))
              = map slide_file_name [1..int N])"
proof -
  let ?files = "fst (handleDownloadZip browser_at generateAsync typography c language urls)"
  have "card (set (map ordem (slides c))) = length (map ordem (slides c))"
    using assms(2) assms(3) by simp
  then have d: "distinct (map ordem (slides c))"
    by (rule card_distinct)
  have ok: "\<forall>i < length (slides c).
      slide_blob (browser_at (0 + i)) typography c language urls (slides c ! i) \<noteq> None"
    using assms(1) by (simp add: slide_blob_Some)
  have names: "map fst ?files = map (\<lambda>s. slide_file_name (ordem s)) (slides c)"
    unfolding handleDownloadZip_files [OF d] using ok by (rule rendered_files_all)
  then have n2: "map fst ?files = map slide_file_name (map ordem (slides c))"
    by (simp add: comp_def)
  have len: "length ?files = N"
    using arg_cong [OF names, of length] assms(3) by simp
  have keys: "fst ` set ?files = slide_file_name ` {1..int N}"
    using arg_cong [OF n2, of set] assms(2) by (simp only: set_map)
  have dist: "distinct (map fst ?files)"
    unfolding handleDownloadZip_files [OF d] using d by (rule rendered_files_distinct)
  have "map fst ?files = map slide_file_name [1..int N]" if "sorted (map ordem (slides c))"
  proof -
    have "map ordem (slides c) = [1..int N]"
      using that d assms(2) by (intro sorted_distinct_set_unique) simp_all
    with n2 show ?thesis by simp
  qed
  with names len keys dist show ?thesis by blast
qed

theorem export_storage_order_witness:
  "map fst (fst (handleDownloadZip
      (\<lambda>n. \<lparr>b_getContext = True, b_measureText = (\<lambda>f s. real (length s)),
              b_toUpperCase = (\<lambda>s. s), b_toBlob = (\<lambda>cv. Some [137, 80, 78, 71]),
              b_loadImage = (\<lambda>u. None)\<rparr>)
      (\<lambda>files. Some [80, 75]) (\<lambda>l. [])
      \<lparr>carousel_id = ''c1'', nicho = None, contexto = None, estilo_fundo = None,
        paleta_cores = None, tipografia = None, cta_no_ultimo_slide = None,
        slides = [\<lparr>ordem = 1, tipo = capa, frase = ''A'', instrucoes_layout = [], prompt_imagem = []\<rparr>,
                  \<lparr>ordem = 2, tipo = conteudo, frase = ''B'', instrucoes_layout = [], prompt_imagem = []\<rparr>]\<rparr>
      pt Map.empty))
    = [''slide_1.png'', ''slide_2.png'']"
proof -
  define B where "B = (\<lambda>n::nat. \<lparr>b_getContext = True, b_measureText = (\<lambda>f s. real (length s)),
              b_toUpperCase = (\<lambda>s. s), b_toBlob = (\<lambda>cv. Some [137, 80, 78, 71::nat]),
              b_loadImage = (\<lambda>u. None)\<rparr>)"
  define C where "C = \<lparr>carousel_id = ''c1'', nicho = None, contexto = None, estilo_fundo = None,
        paleta_cores = None, tipografia = None, cta_no_ultimo_slide = None,
        slides = [\<lparr>ordem = 1, tipo = capa, frase = ''A'', instrucoes_layout = [], prompt_imagem = []\<rparr>,
                  \<lparr>ordem = 2, tipo = conteudo, frase = ''B'', instrucoes_layout = [], prompt_imagem = []\<rparr>]\<rparr>"
  have ok: "\<forall>n. b_getContext (B n) \<and> (\<forall>cv. b_toBlob (B n) cv \<noteq> None)"
    by (simp add: B_def)
  have orders: "set (map ordem (slides C)) = {1..int 2}"
    by (auto simp: C_def)
  have len: "length (slides C) = 2"
    by (simp add: C_def)
  have srt: "sorted (map ordem (slides C))"
    by (simp add: C_def)
  have names: "map slide_file_name [1..int 2] = [''slide_1.png'', ''slide_2.png'']"
    by (simp add: slide_file_name_def num_to_string_def dec.simps digit_def upto.simps)
  from export_storage_order [OF ok orders len, of "\<lambda>files. Some [80, 75]" "\<lambda>l. []" pt Map.empty] srt
  have "map fst (fst (handleDownloadZip B (\<lambda>files. Some [80, 75]) (\<lambda>l. []) C pt Map.empty))
      = map slide_file_name [1..int 2]"
    by blast
  then show ?thesis
    unfolding names B_def C_def .
qed

text \<open>
  Claim C1 as stated fails: a carousel that stores the slide of order 2 before the slide
  of order 1 gets \<^verbatim>\<open>slide_2.png\<close> added before \<^verbatim>\<open>slide_1.png\<close>.
\<close>

theorem export_storage_order_counterexample:
  "map fst (fst (handleDownloadZip
      (\<lambda>n. \<lparr>b_getContext = True, b_measureText = (\<lambda>f s. real (length s)),
              b_toUpperCase = (\<lambda>s. s), b_toBlob = (\<lambda>cv. Some [137, 80, 78, 71]),
              b_loadImage = (\<lambda>u. None)\<rparr>)
      (\<lambda>files. Some [80, 75]) (\<lambda>l. [])
      \<lparr>carousel_id = ''c1'', nicho = None, contexto = None, estilo_fundo = None,
        paleta_cores = None, tipografia = None, cta_no_ultimo_slide = None,
        slides = [\<lparr>ordem = 2, tipo = conteudo, frase = ''B'', instrucoes_layout = [], prompt_imagem = []\<rparr>,
                  \<lparr>ordem = 1, tipo = capa, frase = ''A'', instrucoes_layout = [], prompt_imagem = []\<rparr>]\<rparr>
      pt Map.empty))
    = [''slide_2.png'', ''slide_1.png'']
   \<and> [''slide_2.png'', ''slide_1.png''] \<noteq> map slide_file_name [1..2]"
  by (simp add: handleDownloadZip_def slide_blob_def renderSlideToBlob_def truthy_def Let_def
      slide_file_name_def num_to_string_def dec.simps digit_def upto.simps)

text \<open>
  Claim C9.  A slide for which no rendering context is available yields no blob.  The
  names in the archive are exactly the names \<^verbatim>\<open>slide_<order>.png\<close> of the slides
  whose rendering yielded a blob, whatever happened to the other slides; when the orders
  are pairwise different, the archive holds under the name of every slide the blob of
  that slide, and nothing when there is none.  What the user gets depends on the packing
  of these files alone: the archive is saved under the carousel's id whenever packing
  succeeds.
\<close>

theorem export_skips_failed_slides:
  "(\<forall>i. i < length (slides c) \<and> \<not> b_getContext (browser_at i) \<longrightarrow>
       renderSlideToBlob (browser_at i) typography (slides c ! i) c language bgImage = None
       \<and> slide_blob (browser_at i) typography c language urls (slides c ! i) = None)
   \<and> fst ` set (fst (handleDownloadZip browser_at generateAsync typography c language urls))
       = {slide_file_name (ordem (slides c ! i)) | i.
            i < length (slides c)
            \<and> slide_blob (browser_at i) typography c language urls (slides c ! i) \<noteq> None}
   \<and> (distinct (map ordem (slides c)) \<longrightarrow>
        (\<forall>i. i < length (slides c) \<longrightarrow>
           map_of (fst (handleDownloadZip browser_at generateAsync typography c language urls))
               (slide_file_name (ordem (slides c ! i)))
             = slide_blob (browser_at i) typography c language urls (slides c ! i)))
   \<and> snd (handleDownloadZip browser_at generateAsync typography c language urls)
       = (case generateAsync (fst (handleDownloadZip browser_at generateAsync typography c language urls)) of
            Some content \<Rightarrow> Saved (carousel_id c @ ''.zip'') content
          | None \<Rightarrow> Alerted)"
proof -
  have "\<forall>i. i < length (slides c) \<and> \<not> b_getContext (browser_at i) \<longrightarrow>
       renderSlideToBlob (browser_at i) typography (slides c ! i) c language bgImage = None
       \<and> slide_blob (browser_at i) typography c language urls (slides c ! i) = None"
    by (simp add: slide_blob_no_context renderSlideToBlob_def)
  moreover have "distinct (map ordem (slides c)) \<longrightarrow>
        (\<forall>i. i < length (slides c) \<longrightarrow>
           map_of (fst (handleDownloadZip browser_at generateAsync typography c language urls))
               (slide_file_name (ordem (slides c ! i)))
             = slide_blob (browser_at i) typography c language urls (slides c ! i))"
    using rendered_files_map_of [of "slides c" _ browser_at typography c language urls 0]
    by (simp add: handleDownloadZip_files)
  moreover have "snd (handleDownloadZip browser_at generateAsync typography c language urls)
       = (case generateAsync (fst (handleDownloadZip browser_at generateAsync typography c language urls)) of
            Some content \<Rightarrow> Saved (carousel_id c @ ''.zip'') content
          | None \<Rightarrow> Alerted)"
    by (simp add: handleDownloadZip_def Let_def split: option.splits)
  ultimately show ?thesis
    using handleDownloadZip_keys [of browser_at generateAsync typography c language urls]
    by (intro conjI) assumption+
qed

theorem export_skips_failed_slides_witness:
  "fst (handleDownloadZip
      (\<lambda>n. \<lparr>b_getContext = (n \<noteq> 0), b_measureText = (\<lambda>f s. real (length s)),
              b_toUpperCase = (\<lambda>s. s), b_toBlob = (\<lambda>cv. Some [137, 80, 78, 71]),
              b_loadImage = (\<lambda>u. None)\<rparr>)
      (\<lambda>files. Some [80, 75]) (\<lambda>l. [])
      \<lparr>carousel_id = ''c1'', nicho = None, contexto = None, estilo_fundo = None,
        paleta_cores = None, tipografia = None, cta_no_ultimo_slide = None,
        slides = [\<lparr>ordem = 1, tipo = capa, frase = ''A'', instrucoes_layout = [], prompt_imagem = []\<rparr>,
                  \<lparr>ordem = 2, tipo = conteudo, frase = ''B'', instrucoes_layout = [], prompt_imagem = []\<rparr>]\<rparr>
      pt Map.empty)
    = [(''slide_2.png'', [137, 80, 78, 71])]
   \<and> map_of (fst (handleDownloadZip
      (\<lambda>n. \<lparr>b_getContext = (n \<noteq> 0), b_measureText = (\<lambda>f s. real (length s)),
              b_toUpperCase = (\<lambda>s. s), b_toBlob = (\<lambda>cv. Some [137, 80, 78, 71]),
              b_loadImage = (\<lambda>u. None)\<rparr>)
      (\<lambda>files. Some [80, 75]) (\<lambda>l. [])
      \<lparr>carousel_id = ''c1'', nicho = None, contexto = None, estilo_fundo = None,
        paleta_cores = None, tipografia = None, cta_no_ultimo_slide = None,
        slides = [\<lparr>ordem = 1, tipo = capa, frase = ''A'', instrucoes_layout = [], prompt_imagem = []\<rparr>,
                  \<lparr>ordem = 2, tipo = conteudo, frase = ''B'', instrucoes_layout = [], prompt_imagem = []\<rparr>]\<rparr>
      pt Map.empty)) (slide_file_name 1) = None
   \<and> snd (handleDownloadZip
      (\<lambda>n. \<lparr>b_getContext = (n \<noteq> 0), b_measureText = (\<lambda>f s. real (length s)),
              b_toUpperCase = (\<lambda>s. s), b_toBlob = (\<lambda>cv. Some [137, 80, 78, 71]),
              b_loadImage = (\<lambda>u. None)\<rparr>)
      (\<lambda>files. Some [80, 75]) (\<lambda>l. [])
      \<lparr>carousel_id = ''c1'', nicho = None, contexto = None, estilo_fundo = None,
        paleta_cores = None, tipografia = None, cta_no_ultimo_slide = None,
        slides = [\<lparr>ordem = 1, tipo = capa, frase = ''A'', instrucoes_layout = [], prompt_imagem = []\<rparr>,
                  \<lparr>ordem = 2, tipo = conteudo, frase = ''B'', instrucoes_layout = [], prompt_imagem = []\<rparr>]\<rparr>
      pt Map.empty)
    = Saved ''c1.zip'' [80, 75]"
proof -
  define B where "B = (\<lambda>n::nat. \<lparr>b_getContext = (n \<noteq> 0), b_measureText = (\<lambda>f s. real (length s)),
              b_toUpperCase = (\<lambda>s. s), b_toBlob = (\<lambda>cv. Some [137, 80, 78, 71::nat]),
              b_loadImage = (\<lambda>u. None)\<rparr>)"
  define C where "C = \<lparr>carousel_id = ''c1'', nicho = None, contexto = None, estilo_fundo = None,
        paleta_cores = None, tipografia = None, cta_no_ultimo_slide = None,
        slides = [\<lparr>ordem = 1, tipo = capa, frase = ''A'', instrucoes_layout = [], prompt_imagem = []\<rparr>,
                  \<lparr>ordem = 2, tipo = conteudo, frase = ''B'', instrucoes_layout = [], prompt_imagem = []\<rparr>]\<rparr>"
  define G where "G = (\<lambda>files :: zip_files. Some [80, 75::nat])"
  define T where "T = (\<lambda>l :: Language. [] :: fontOption list)"
  note inst = export_skips_failed_slides [of C B T pt None Map.empty G]
  have files: "fst (handleDownloadZip B G T C pt Map.empty) = [(''slide_2.png'', [137, 80, 78, 71])]"
    by (simp add: handleDownloadZip_def slide_blob_def renderSlideToBlob_def truthy_def Let_def
        slide_file_name_def num_to_string_def dec.simps digit_def B_def C_def G_def)
  have d: "distinct (map ordem (slides C))" and i: "0 < length (slides C)"
    by (simp_all add: C_def)
  have s0: "slides C ! 0 = \<lparr>ordem = 1, tipo = capa, frase = ''A'', instrucoes_layout = [], prompt_imagem = []\<rparr>"
    by (simp add: C_def)
  have nb: "slide_blob (B 0) T C pt Map.empty (slides C ! 0) = None"
    using inst [THEN conjunct1, rule_format, of 0] i by (simp add: B_def)
  from inst [THEN conjunct2, THEN conjunct2, THEN conjunct1, rule_format, OF d i] nb
  have m: "map_of (fst (handleDownloadZip B G T C pt Map.empty)) (slide_file_name 1) = None"
    by (simp add: s0)
  from inst [THEN conjunct2, THEN conjunct2, THEN conjunct2]
  have "snd (handleDownloadZip B G T C pt Map.empty) = Saved ''c1.zip'' [80, 75]"
    by (simp add: G_def C_def)
  with files m show ?thesis
    unfolding B_def C_def G_def T_def by (intro conjI)
qed


subsection \<open>Image orchestration\<close>

lemma collect_urls_Nil [simp]: "collect_urls sl [] = Map.empty"
  by (simp add: collect_urls_def)

lemma collect_urls_snoc:
  "collect_urls sl (rs @ [r])
     = (if truthy r then (collect_urls sl rs)(ordem (sl ! length rs) \<mapsto> the r)
        else collect_urls sl rs)"
  by (simp add: collect_urls_def)

lemma collect_urls_Some:
  "collect_urls sl rs k = Some u \<Longrightarrow>
   \<exists>i < length rs. ordem (sl ! i) = k \<and> rs ! i = Some u \<and> u \<noteq> []"
proof (induction rs rule: rev_induct)
  case Nil
  then show ?case by simp
next
  case (snoc r rs)
  show ?case
  proof (cases "truthy r \<and> ordem (sl ! length rs) = k")
    case True
    with snoc.prems have "r = Some u" "u \<noteq> []"
      by (auto simp: collect_urls_snoc truthy_def split: option.splits)
    with True show ?thesis
      by (intro exI [of _ "length rs"]) simp
  next
    case False
    with snoc.prems have "collect_urls sl rs k = Some u"
      by (auto simp: collect_urls_snoc split: if_splits)
    from snoc.IH [OF this] obtain i where "i < length rs" "ordem (sl ! i) = k"
      "rs ! i = Some u" "u \<noteq> []" by blast
    then show ?thesis
      by (intro exI [of _ i]) (simp add: nth_append)
  qed
qed

lemma collect_urls_distinct:
  "distinct (map ordem sl) \<Longrightarrow> length rs \<le> length sl \<Longrightarrow> i < length rs \<Longrightarrow>
   collect_urls sl rs (ordem (sl ! i)) = (if truthy (rs ! i) then rs ! i else None)"
proof (induction rs rule: rev_induct)
  case Nil
  then show ?case by simp
next
  case (snoc r rs)
  have neq: "ordem (sl ! j) \<noteq> ordem (sl ! length rs)" if "j < length rs" for j
  proof -
    from that snoc.prems(2) have "j < length sl" "length rs < length sl" "j \<noteq> length rs"
      by simp_all
    with snoc.prems(1) have "map ordem sl ! j \<noteq> map ordem sl ! length rs"
      by (simp add: nth_eq_iff_index_eq del: nth_map)
    with \<open>j < length sl\<close> \<open>length rs < length sl\<close> show ?thesis by simp
  qed
  show ?case
  proof (cases "i < length rs")
    case True
    with snoc have "collect_urls sl rs (ordem (sl ! i)) = (if truthy (rs ! i) then rs ! i else None)"
      by simp
    with True neq [of i] show ?thesis
      by (simp add: collect_urls_snoc nth_append)
  next
    case False
    with snoc.prems(3) have i: "i = length rs" by simp
    have "collect_urls sl rs (ordem (sl ! length rs)) = None"
    proof (rule ccontr)
      assume "collect_urls sl rs (ordem (sl ! length rs)) \<noteq> None"
      then obtain u where "collect_urls sl rs (ordem (sl ! length rs)) = Some u" by blast
      from collect_urls_Some [OF this] neq show False by blast
    qed
    with i show ?thesis
      by (auto simp: collect_urls_snoc truthy_def split: option.splits)
  qed
qed

lemma settled_urls_Some:
  "imageUrls (fetchImages_settled c outcome st) k = Some u \<Longrightarrow>
   \<exists>i < length (slides c). ordem (slides c ! i) = k \<and> outcome i = Some u \<and> u \<noteq> []"
proof -
  assume "imageUrls (fetchImages_settled c outcome st) k = Some u"
  then have "collect_urls (slides c) (map outcome [0..<length (slides c)]) k = Some u"
    by (simp add: fetchImages_settled_def Let_def)
  from collect_urls_Some [OF this] show ?thesis by auto
qed

lemma settled_urls_distinct:
  "distinct (map ordem (slides c)) \<Longrightarrow> i < length (slides c) \<Longrightarrow>
   imageUrls (fetchImages_settled c outcome st) (ordem (slides c ! i))
     = (if truthy (outcome i) then outcome i else None)"
  using collect_urls_distinct [of "slides c" "map outcome [0..<length (slides c)]" i]
  by (simp add: fetchImages_settled_def Let_def)

lemma mount_photo:
  "isPhotoBg c \<Longrightarrow> mount c = \<lparr>carousel_prop = c, imageUrls = Map.empty, isLoadingImages = True,
      in_flight = [c], requested = map prompt_imagem (slides c)\<rparr>"
  by (simp add: mount_def image_effect_def)

lemma mount_plain:
  "\<not> isPhotoBg c \<Longrightarrow> mount c = \<lparr>carousel_prop = c, imageUrls = Map.empty, isLoadingImages = False,
      in_flight = [], requested = []\<rparr>"
  by (simp add: mount_def image_effect_def)

lemma collect_urls_single:
  "collect_urls sl [r] = (if truthy r then [ordem (sl ! 0) \<mapsto> the r] else Map.empty)"
  using collect_urls_snoc [of sl "[]" r] by simp

lemma preview_run_snoc: "preview_run st (evs @ [e]) = preview_step (preview_run st evs) e"
  by (simp add: preview_run_def)

lemma carousels_seen_snoc:
  "set (carousels_seen c0 (evs @ [e]))
     = set (carousels_seen c0 evs) \<union> (case e of Replace c \<Rightarrow> {c} | Settle k outcome \<Rightarrow> {})"
  by (cases e) (auto simp: carousels_seen_def)

lemma image_effect_fields:
  "imageUrls (image_effect c st) = imageUrls st"
  "carousel_prop (image_effect c st) = carousel_prop st"
  "set (requested st) \<subseteq> set (requested (image_effect c st))"
  "set (in_flight (image_effect c st)) = set (in_flight st) \<union> (if isPhotoBg c then {c} else {})"
  "isPhotoBg c \<Longrightarrow> prompt_imagem ` set (slides c) \<subseteq> set (requested (image_effect c st))"
  by (auto simp: image_effect_def)

lemma preview_run_invariant:
  "(\<forall>c \<in> set (in_flight (preview_run (mount c0) evs)).
       c \<in> set (carousels_seen c0 evs) \<and> isPhotoBg c
       \<and> prompt_imagem ` set (slides c) \<subseteq> set (requested (preview_run (mount c0) evs)))
   \<and> (\<forall>k u. imageUrls (preview_run (mount c0) evs) k = Some u \<longrightarrow>
        u \<noteq> [] \<and> (\<exists>c \<in> set (carousels_seen c0 evs). isPhotoBg c
           \<and> (\<exists>s \<in> set (slides c). ordem s = k
                 \<and> prompt_imagem s \<in> set (requested (preview_run (mount c0) evs)))))"
  (is "?A evs \<and> ?B evs")
proof (induction evs rule: rev_induct)
  case Nil
  show ?case
    by (cases "isPhotoBg c0")
      (simp_all add: preview_run_def mount_photo mount_plain carousels_seen_def)
next
  case (snoc e evs)
  let ?st = "preview_run (mount c0) evs"
  let ?st' = "preview_run (mount c0) (evs @ [e])"
  from snoc have A: "?A evs" and B: "?B evs" by blast+
  show ?case
  proof (cases e)
    case (Replace c')
    let ?mid = "?st\<lparr>carousel_prop := c'\<rparr>"
    have st': "?st' = image_effect c' ?mid"
      by (simp add: preview_run_snoc Replace)
    have seen: "set (carousels_seen c0 (evs @ [e])) = set (carousels_seen c0 evs) \<union> {c'}"
      by (simp add: carousels_seen_snoc Replace)
    have req: "set (requested ?st) \<subseteq> set (requested ?st')"
      unfolding st' using image_effect_fields(3) [of ?mid c'] by simp
    have fl: "set (in_flight ?st') = set (in_flight ?st) \<union> (if isPhotoBg c' then {c'} else {})"
      unfolding st' using image_effect_fields(4) [of c' ?mid] by simp
    have new: "isPhotoBg c' \<longrightarrow> prompt_imagem ` set (slides c') \<subseteq> set (requested ?st')"
      unfolding st' using image_effect_fields(5) [of c' ?mid] by simp
    have urls: "imageUrls ?st' = imageUrls ?st"
      unfolding st' by (simp add: image_effect_fields(1))
    have "?A (evs @ [e])"
    proof
      fix c assume "c \<in> set (in_flight ?st')"
      with fl consider "c \<in> set (in_flight ?st)" | "c = c'" "isPhotoBg c'"
        by (auto split: if_splits)
      then show "c \<in> set (carousels_seen c0 (evs @ [e])) \<and> isPhotoBg c
          \<and> prompt_imagem ` set (slides c) \<subseteq> set (requested ?st')"
      proof cases
        case 1
        with A req seen show ?thesis by blast
      next
        case 2
        with new seen show ?thesis by blast
      qed
    qed
    moreover have "?B (evs @ [e])"
      unfolding urls using B req seen by blast
    ultimately show ?thesis ..
  next
    case (Settle k outcome)
    have seen: "set (carousels_seen c0 (evs @ [e])) = set (carousels_seen c0 evs)"
      by (simp add: carousels_seen_snoc Settle)
    show ?thesis
    proof (cases "k < length (in_flight ?st)")
      case False
      then have "?st' = ?st" by (simp add: preview_run_snoc Settle)
      with A B seen show ?thesis by simp
    next
      case True
      let ?c = "in_flight ?st ! k"
      let ?mid = "?st\<lparr>in_flight := take k (in_flight ?st) @ drop (Suc k) (in_flight ?st)\<rparr>"
      have st': "?st' = fetchImages_settled ?c outcome ?mid"
        using True by (simp add: preview_run_snoc Settle)
      have req: "requested ?st' = requested ?st"
        unfolding st' by (simp add: fetchImages_settled_def Let_def)
      have "set (take k (in_flight ?st)) \<subseteq> set (in_flight ?st)"
        "set (drop (Suc k) (in_flight ?st)) \<subseteq> set (in_flight ?st)"
        by (rule set_take_subset, rule set_drop_subset)
      then have fl: "set (in_flight ?st') \<subseteq> set (in_flight ?st)"
        unfolding st' by (simp add: fetchImages_settled_def Let_def)
      from True have "?c \<in> set (in_flight ?st)" by simp
      with A have c: "?c \<in> set (carousels_seen c0 evs)" "isPhotoBg ?c"
        "prompt_imagem ` set (slides ?c) \<subseteq> set (requested ?st)" by blast+
      have "?A (evs @ [e])"
        unfolding req seen using A fl by blast
      moreover have "?B (evs @ [e])"
        unfolding req seen
      proof (intro allI impI)
        fix k' u assume "imageUrls ?st' k' = Some u"
        then obtain i where i: "i < length (slides ?c)" "ordem (slides ?c ! i) = k'" "u \<noteq> []"
          unfolding st' using settled_urls_Some by blast
        then have "slides ?c ! i \<in> set (slides ?c)" by simp
        with c i show "u \<noteq> [] \<and> (\<exists>c \<in> set (carousels_seen c0 evs). isPhotoBg c
           \<and> (\<exists>s \<in> set (slides c). ordem s = k' \<and> prompt_imagem s \<in> set (requested ?st)))"
          by blast
      qed
      ultimately show ?thesis ..
    qed
  qed
qed

lemma plain_run:
  "\<forall>c \<in> set (carousels_seen c0 evs). \<not> isPhotoBg c \<Longrightarrow>
   requested (preview_run (mount c0) evs) = [] \<and> in_flight (preview_run (mount c0) evs) = []
   \<and> imageUrls (preview_run (mount c0) evs) = Map.empty"
proof (induction evs rule: rev_induct)
  case Nil
  then show ?case by (simp add: preview_run_def mount_plain carousels_seen_def)
next
  case (snoc e evs)
  from snoc.prems have "\<forall>c \<in> set (carousels_seen c0 evs). \<not> isPhotoBg c"
    by (simp add: carousels_seen_snoc)
  note ih = snoc.IH [OF this]
  show ?case
  proof (cases e)
    case (Replace c')
    with snoc.prems have "\<not> isPhotoBg c'" by (simp add: carousels_seen_snoc)
    with ih Replace show ?thesis
      by (simp add: preview_run_snoc image_effect_def)
  next
    case (Settle k outcome)
    with ih show ?thesis by (simp add: preview_run_snoc)
  qed
qed

text \<open>
  Claim C10.  In every state a preview reaches, an entry of the image map belongs to the
  order of a slide of a carousel with a photographic background style for whose prompt a
  request was made, and holds a non-empty result.  A carousel without a photographic
  style makes no request, starts no batch and leaves the map empty, and as long as the
  preview is given no carousel of photographic style no request is ever made and the
  map stays empty.  A carousel with a
  photographic style requests one image per slide; when its batch settles, every entry
  of the map is keyed by the order of a slide and holds what the request of that very
  slide resolved to, and with pairwise different orders the map has, under the order of
  each slide, the result of that slide if it is truthy and nothing otherwise; the
  loading flag is cleared.  With two slides, the first resolving to \<^verbatim>\<open>null\<close> and the
  second to a reference, two requests were made and the map has exactly one entry, keyed
  by the order of the second slide.
\<close>

theorem image_map_invariant:
  "(\<forall>k u. imageUrls (preview_run (mount c0) evs) k = Some u \<longrightarrow>
      u \<noteq> [] \<and> (\<exists>c \<in> set (carousels_seen c0 evs). isPhotoBg c
         \<and> (\<exists>s \<in> set (slides c). ordem s = k
               \<and> prompt_imagem s \<in> set (requested (preview_run (mount c0) evs)))))
   \<and> ((\<forall>c \<in> set (carousels_seen c0 evs). \<not> isPhotoBg c) \<longrightarrow>
        requested (preview_run (mount c0) evs) = []
        \<and> imageUrls (preview_run (mount c0) evs) = Map.empty)
   \<and> (\<not> isPhotoBg c0 \<longrightarrow>
        requested (mount c0) = [] \<and> in_flight (mount c0) = []
        \<and> imageUrls (mount c0) = Map.empty \<and> \<not> isLoadingImages (mount c0))
   \<and> (isPhotoBg c0 \<longrightarrow>
        requested (mount c0) = map prompt_imagem (slides c0) \<and> in_flight (mount c0) = [c0]
        \<and> (\<forall>k u. imageUrls (preview_step (mount c0) (Settle 0 outcome)) k = Some u \<longrightarrow>
              (\<exists>i. i < length (slides c0) \<and> ordem (slides c0 ! i) = k \<and> outcome i = Some u))
        \<and> (distinct (map ordem (slides c0)) \<longrightarrow>
              (\<forall>i. i < length (slides c0) \<longrightarrow>
                 imageUrls (preview_step (mount c0) (Settle 0 outcome)) (ordem (slides c0 ! i))
                   = (if truthy (outcome i) then outcome i else None)))
        \<and> \<not> isLoadingImages (preview_step (mount c0) (Settle 0 outcome)))
   \<and> (isPhotoBg c0 \<and> slides c0 = [s1, s2] \<and> outcome 0 = None \<and> outcome 1 = Some v \<and> v \<noteq> [] \<longrightarrow>
        requested (mount c0) = [prompt_imagem s1, prompt_imagem s2]
        \<and> imageUrls (preview_step (mount c0) (Settle 0 outcome)) = [ordem s2 \<mapsto> v])"
proof -
  have settle: "preview_step (mount c0) (Settle 0 outcome)
      = fetchImages_settled c0 outcome ((mount c0)\<lparr>in_flight := []\<rparr>)" if "isPhotoBg c0"
    using that by (simp add: mount_photo)
  have 1: "\<forall>k u. imageUrls (preview_run (mount c0) evs) k = Some u \<longrightarrow>
      u \<noteq> [] \<and> (\<exists>c \<in> set (carousels_seen c0 evs). isPhotoBg c
         \<and> (\<exists>s \<in> set (slides c). ordem s = k
               \<and> prompt_imagem s \<in> set (requested (preview_run (mount c0) evs))))"
    using preview_run_invariant [of c0 evs] by (rule conjunct2)
  have 5: "(\<forall>c \<in> set (carousels_seen c0 evs). \<not> isPhotoBg c) \<longrightarrow>
        requested (preview_run (mount c0) evs) = []
        \<and> imageUrls (preview_run (mount c0) evs) = Map.empty"
    using plain_run [of c0 evs] by blast
  have 2: "\<not> isPhotoBg c0 \<longrightarrow>
        requested (mount c0) = [] \<and> in_flight (mount c0) = []
        \<and> imageUrls (mount c0) = Map.empty \<and> \<not> isLoadingImages (mount c0)"
    by (simp add: mount_plain)
  have 3: "isPhotoBg c0 \<longrightarrow>
        requested (mount c0) = map prompt_imagem (slides c0) \<and> in_flight (mount c0) = [c0]
        \<and> (\<forall>k u. imageUrls (preview_step (mount c0) (Settle 0 outcome)) k = Some u \<longrightarrow>
              (\<exists>i. i < length (slides c0) \<and> ordem (slides c0 ! i) = k \<and> outcome i = Some u))
        \<and> (distinct (map ordem (slides c0)) \<longrightarrow>
              (\<forall>i. i < length (slides c0) \<longrightarrow>
                 imageUrls (preview_step (mount c0) (Settle 0 outcome)) (ordem (slides c0 ! i))
                   = (if truthy (outcome i) then outcome i else None)))
        \<and> \<not> isLoadingImages (preview_step (mount c0) (Settle 0 outcome))"
  proof
    assume p: "isPhotoBg c0"
    have "\<forall>k u. imageUrls (preview_step (mount c0) (Settle 0 outcome)) k = Some u \<longrightarrow>
              (\<exists>i. i < length (slides c0) \<and> ordem (slides c0 ! i) = k \<and> outcome i = Some u)"
      unfolding settle [OF p] using settled_urls_Some by blast
    moreover have "distinct (map ordem (slides c0)) \<longrightarrow>
              (\<forall>i. i < length (slides c0) \<longrightarrow>
                 imageUrls (preview_step (mount c0) (Settle 0 outcome)) (ordem (slides c0 ! i))
                   = (if truthy (outcome i) then outcome i else None))"
      unfolding settle [OF p] by (simp add: settled_urls_distinct)
    moreover have "\<not> isLoadingImages (preview_step (mount c0) (Settle 0 outcome))"
      unfolding settle [OF p] by (simp add: fetchImages_settled_def Let_def)
    moreover have "requested (mount c0) = map prompt_imagem (slides c0) \<and> in_flight (mount c0) = [c0]"
      using p by (simp add: mount_photo)
    ultimately show "requested (mount c0) = map prompt_imagem (slides c0) \<and> in_flight (mount c0) = [c0]
        \<and> (\<forall>k u. imageUrls (preview_step (mount c0) (Settle 0 outcome)) k = Some u \<longrightarrow>
              (\<exists>i. i < length (slides c0) \<and> ordem (slides c0 ! i) = k \<and> outcome i = Some u))
        \<and> (distinct (map ordem (slides c0)) \<longrightarrow>
              (\<forall>i. i < length (slides c0) \<longrightarrow>
                 imageUrls (preview_step (mount c0) (Settle 0 outcome)) (ordem (slides c0 ! i))
                   = (if truthy (outcome i) then outcome i else None)))
        \<and> \<not> isLoadingImages (preview_step (mount c0) (Settle 0 outcome))"
      by blast
  qed
  have 4: "isPhotoBg c0 \<and> slides c0 = [s1, s2] \<and> outcome 0 = None \<and> outcome 1 = Some v \<and> v \<noteq> [] \<longrightarrow>
        requested (mount c0) = [prompt_imagem s1, prompt_imagem s2]
        \<and> imageUrls (preview_step (mount c0) (Settle 0 outcome)) = [ordem s2 \<mapsto> v]"
  proof
    assume a: "isPhotoBg c0 \<and> slides c0 = [s1, s2] \<and> outcome 0 = None \<and> outcome 1 = Some v \<and> v \<noteq> []"
    then have p: "isPhotoBg c0" by simp
    have "map outcome [0..<length (slides c0)] = [None] @ [Some v]"
      using a by (simp add: upt_rec)
    then have "collect_urls (slides c0) (map outcome [0..<length (slides c0)]) = [ordem s2 \<mapsto> v]"
      using a by (simp only: collect_urls_snoc) (simp add: truthy_def collect_urls_single)
    then show "requested (mount c0) = [prompt_imagem s1, prompt_imagem s2]
        \<and> imageUrls (preview_step (mount c0) (Settle 0 outcome)) = [ordem s2 \<mapsto> v]"
      unfolding settle [OF p] using a by (simp add: mount_photo fetchImages_settled_def Let_def)
  qed
  from 1 5 2 3 4 show ?thesis by (intro conjI)
qed

theorem image_map_invariant_witness:
  "requested (mount
      \<lparr>carousel_id = ''c1'', nicho = None, contexto = None, estilo_fundo = Some ''foto realista'',
        paleta_cores = None, tipografia = None, cta_no_ultimo_slide = None,
        slides = [\<lparr>ordem = 1, tipo = capa, frase = ''A'', instrucoes_layout = [], prompt_imagem = ''p1''\<rparr>,
                  \<lparr>ordem = 2, tipo = conteudo, frase = ''B'', instrucoes_layout = [], prompt_imagem = ''p2''\<rparr>]\<rparr>)
     = [''p1'', ''p2'']
   \<and> imageUrls (preview_step (mount
      \<lparr>carousel_id = ''c1'', nicho = None, contexto = None, estilo_fundo = Some ''foto realista'',
        paleta_cores = None, tipografia = None, cta_no_ultimo_slide = None,
        slides = [\<lparr>ordem = 1, tipo = capa, frase = ''A'', instrucoes_layout = [], prompt_imagem = ''p1''\<rparr>,
                  \<lparr>ordem = 2, tipo = conteudo, frase = ''B'', instrucoes_layout = [], prompt_imagem = ''p2''\<rparr>]\<rparr>)
      (Settle 0 (\<lambda>i. if i = 1 then Some ''data:image/png;base64,AA'' else None)))
     = [2 \<mapsto> ''data:image/png;base64,AA'']"
proof -
  define s1 where "s1 = \<lparr>ordem = 1, tipo = capa, frase = ''A'', instrucoes_layout = [], prompt_imagem = ''p1''\<rparr>"
  define s2 where "s2 = \<lparr>ordem = 2, tipo = conteudo, frase = ''B'', instrucoes_layout = [], prompt_imagem = ''p2''\<rparr>"
  define C where "C = \<lparr>carousel_id = ''c1'', nicho = None, contexto = None, estilo_fundo = Some ''foto realista'',
        paleta_cores = None, tipografia = None, cta_no_ultimo_slide = None, slides = [s1, s2]\<rparr>"
  define out where "out = (\<lambda>i::nat. if i = 1 then Some ''data:image/png;base64,AA'' else None)"
  have hyp: "isPhotoBg C \<and> slides C = [s1, s2] \<and> out 0 = None
      \<and> out 1 = Some ''data:image/png;base64,AA'' \<and> ''data:image/png;base64,AA'' \<noteq> []"
    by (simp add: isPhotoBg_def C_def out_def)
  from image_map_invariant [of C "[]" out s1 s2 "''data:image/png;base64,AA''",
      THEN conjunct2, THEN conjunct2, THEN conjunct2, THEN conjunct2, rule_format, OF hyp]
  have "requested (mount C) = [prompt_imagem s1, prompt_imagem s2]
        \<and> imageUrls (preview_step (mount C) (Settle 0 out)) = [ordem s2 \<mapsto> ''data:image/png;base64,AA'']" .
  then show ?thesis
    unfolding C_def out_def by (simp add: s1_def s2_def)
qed

text \<open>
  The previews of the app.  An unmounted instance stays unmounted, while a generation
  runs no instance is mounted, and the settling of a batch of an unmounted instance
  changes what no instance shows.
\<close>

lemma own_batches_mount: "own_batches (mount c)"
  by (cases "isPhotoBg c") (simp_all add: own_batches_def mount_photo mount_plain)

lemma settle0:
  "in_flight st \<noteq> [] \<Longrightarrow>
   preview_step st (Settle 0 outcome)
     = (st\<lparr>in_flight := tl (in_flight st)\<rparr>)
         \<lparr>imageUrls := collect_urls (slides (hd (in_flight st)))
                         (map outcome [0..<length (slides (hd (in_flight st)))]),
          isLoadingImages := False\<rparr>"
  by (cases "in_flight st") (simp_all add: fetchImages_settled_def Let_def)

lemma own_batches_settle:
  assumes "own_batches (snd p)" "in_flight (snd p) \<noteq> []"
  shows "own_batches (snd (settle_instance p outcome))"
proof -
  let ?st = "snd p"
  from assms have hd: "hd (in_flight ?st) = carousel_prop ?st"
    by (cases "in_flight ?st") (auto simp: own_batches_def)
  have tl: "set (tl (in_flight ?st)) \<subseteq> set (in_flight ?st)"
    by (cases "in_flight ?st") auto
  show ?thesis
    unfolding settle_instance_def Let_def settle0 [OF assms(2)] using assms(1) tl hd
    by (auto simp: own_batches_def)
qed

lemma app_run_snoc: "app_run (evs @ [e]) = app_step (app_run evs) e"
  by (simp add: app_run_def)

lemma instances_StartGeneration:
  "instances (app_step s StartGeneration)
     = (if app_isLoading s then instances s else map (\<lambda>p. (False, snd p)) (instances s))"
  by (simp add: case_prod_unfold)

lemma isLoading_StartGeneration: "app_isLoading (app_step s StartGeneration)"
  by simp

lemma isLoading_BatchSettles:
  "app_isLoading (app_step s (BatchSettles i outcome)) = app_isLoading s"
  unfolding app_step.simps by (simp only: if_distrib [of app_isLoading]) simp

lemma length_BatchSettles:
  "length (instances (app_step s (BatchSettles i outcome))) = length (instances s)"
  unfolding app_step.simps by (simp only: if_distrib [of instances] if_distrib [of length]) simp

lemma instances_BatchSettles:
  "i < length (instances s) \<Longrightarrow> in_flight (snd (instances s ! i)) \<noteq> [] \<Longrightarrow>
   instances (app_step s (BatchSettles i outcome))
     = (instances s)[i := settle_instance (instances s ! i) outcome]"
  unfolding app_step.simps by (simp only: simp_thms if_True) simp

lemma instances_BatchSettles_idle:
  "\<not> (i < length (instances s) \<and> in_flight (snd (instances s ! i)) \<noteq> []) \<Longrightarrow>
   app_step s (BatchSettles i outcome) = s"
  unfolding app_step.simps by (rule if_not_P)

lemma app_run_own_batches:
  "\<forall>p \<in> set (instances (app_run evs)). own_batches (snd p)"
proof (induction evs rule: rev_induct)
  case Nil
  then show ?case by (simp add: app_run_def app_init_def)
next
  case (snoc e evs)
  let ?s = "app_run evs"
  show ?case
  proof (cases e)
    case StartGeneration
    show ?thesis
      unfolding app_run_snoc StartGeneration instances_StartGeneration
      using snoc by (cases "app_isLoading ?s") (simp_all only: if_True if_False set_map ball_simps snd_conv)
  next
    case (ShowResults cs)
    show ?thesis
    proof (cases "app_isLoading ?s")
      case True
      then have "instances (app_step ?s (ShowResults cs))
          = instances ?s @ map (\<lambda>c. (True, mount c)) cs"
        by simp
      then show ?thesis
        unfolding app_run_snoc ShowResults using snoc by (auto simp: own_batches_mount)
    next
      case False
      then have "app_step ?s (ShowResults cs) = ?s" by simp
      then show ?thesis
        unfolding app_run_snoc ShowResults using snoc by simp
    qed
  next
    case (BatchSettles i outcome)
    show ?thesis
    proof (cases "i < length (instances ?s) \<and> in_flight (snd (instances ?s ! i)) \<noteq> []")
      case False
      from False have "app_step ?s (BatchSettles i outcome) = ?s"
        by (rule instances_BatchSettles_idle)
      then have "app_run (evs @ [e]) = ?s"
        by (simp only: app_run_snoc BatchSettles)
      with snoc show ?thesis by (simp only:)
    next
      case True
      then have "instances ?s ! i \<in> set (instances ?s)" by simp
      with snoc have o: "own_batches (snd (instances ?s ! i))" by blast
      from True have os: "own_batches (snd (settle_instance (instances ?s ! i) outcome))"
        by (intro own_batches_settle [OF o]) simp
      from True have lt: "i < length (instances ?s)"
        and ne: "in_flight (snd (instances ?s ! i)) \<noteq> []"
        by simp_all
      note step = instances_BatchSettles [OF lt ne, of outcome]
      show ?thesis
        unfolding app_run_snoc BatchSettles step
      proof (rule ballI)
        fix p
        assume "p \<in> set ((instances ?s)[i := settle_instance (instances ?s ! i) outcome])"
        then have "p \<in> insert (settle_instance (instances ?s ! i) outcome) (set (instances ?s))"
          by (rule subsetD [OF set_update_subset_insert])
        then consider "p = settle_instance (instances ?s ! i) outcome" | "p \<in> set (instances ?s)"
          by (auto simp only: insert_iff)
        then show "own_batches (snd p)"
        proof cases
          case 1
          with os show ?thesis by simp
        next
          case 2
          with snoc show ?thesis by blast
        qed
      qed
    qed
  qed
qed

lemma unmounted_step:
  assumes "j < length (instances s)" "\<not> fst (instances s ! j)"
  shows "j < length (instances (app_step s e)) \<and> \<not> fst (instances (app_step s e) ! j)"
proof (cases e)
  case StartGeneration
  with assms show ?thesis
    by (cases "app_isLoading s") (simp_all add: instances_StartGeneration del: app_step.simps)
next
  case (ShowResults cs)
  with assms show ?thesis by (simp add: nth_append)
next
  case (BatchSettles i outcome)
  show ?thesis
  proof (cases "i < length (instances s) \<and> in_flight (snd (instances s ! i)) \<noteq> []")
    case False
    with assms show ?thesis
      unfolding BatchSettles instances_BatchSettles_idle [OF False] by simp
  next
    case True
    then have a: "i < length (instances s)" and b: "in_flight (snd (instances s ! i)) \<noteq> []"
      by simp_all
    have step: "instances (app_step s (BatchSettles i outcome))
        = (instances s)[i := settle_instance (instances s ! i) outcome]"
      by (rule instances_BatchSettles [OF a b])
    have "fst (settle_instance (instances s ! i) outcome) = fst (instances s ! i)"
      by (simp add: settle_instance_def Let_def)
    with assms show ?thesis
      unfolding BatchSettles step by (cases "j = i") simp_all
  qed
qed

lemma loading_unmounted:
  "app_isLoading (app_run evs) \<Longrightarrow> j < length (instances (app_run evs)) \<Longrightarrow>
   \<not> fst (instances (app_run evs) ! j)"
proof (induction evs arbitrary: j rule: rev_induct)
  case Nil
  then show ?case by (simp add: app_run_def app_init_def)
next
  case (snoc e evs)
  let ?s = "app_run evs"
  show ?case
  proof (cases e)
    case StartGeneration
    show ?thesis
    proof (cases "app_isLoading ?s")
      case True
      then have "app_step ?s StartGeneration = ?s" by simp
      then have eq: "app_run (evs @ [e]) = ?s"
        unfolding app_run_snoc StartGeneration .
      from snoc.prems(2) have "j < length (instances ?s)" unfolding eq .
      from snoc.IH [OF True this] show ?thesis unfolding eq .
    next
      case False
      with snoc.prems(2) show ?thesis
        unfolding app_run_snoc StartGeneration instances_StartGeneration by simp
    qed
  next
    case (ShowResults cs)
    show ?thesis
    proof (cases "app_isLoading ?s")
      case True
      with snoc.prems(1) show ?thesis
        unfolding app_run_snoc ShowResults by simp
    next
      case False
      then have "app_step ?s (ShowResults cs) = ?s" by simp
      then have eq: "app_run (evs @ [e]) = ?s"
        unfolding app_run_snoc ShowResults .
      from snoc.prems(1) False show ?thesis unfolding eq by simp
    qed
  next
    case (BatchSettles i outcome)
    from snoc.prems have l: "app_isLoading ?s" and j: "j < length (instances ?s)"
      unfolding app_run_snoc BatchSettles isLoading_BatchSettles length_BatchSettles
      by simp_all
    from snoc.IH [OF l j] have "\<not> fst (instances ?s ! j)" .
    from unmounted_step [OF j this, of e] show ?thesis
      unfolding app_run_snoc by (rule conjunct2)
  qed
qed

lemma start_unmounts:
  assumes "j < length (instances (app_run evs))"
  shows "j < length (instances (app_step (app_run evs) StartGeneration))
       \<and> \<not> fst (instances (app_step (app_run evs) StartGeneration) ! j)"
proof (cases "app_isLoading (app_run evs)")
  case True
  then have "app_step (app_run evs) StartGeneration = app_run evs" by simp
  then show ?thesis
    using loading_unmounted [OF True assms] assms by simp
next
  case False
  with assms show ?thesis
    unfolding instances_StartGeneration by simp
qed

lemma unmounted_for_good:
  assumes "i < length (instances (app_run evs1))"
  shows "i < length (instances (app_run (evs1 @ StartGeneration # evs2)))
       \<and> \<not> fst (instances (app_run (evs1 @ StartGeneration # evs2)) ! i)"
proof (induction evs2 rule: rev_induct)
  case Nil
  have eq: "app_run (evs1 @ [StartGeneration]) = app_step (app_run evs1) StartGeneration"
    by (rule app_run_snoc)
  show ?case unfolding eq by (rule start_unmounts [OF assms])
next
  case (snoc e evs2)
  have "app_run (evs1 @ StartGeneration # evs2 @ [e])
      = app_step (app_run (evs1 @ StartGeneration # evs2)) e"
    using app_run_snoc [of "evs1 @ StartGeneration # evs2" e] by simp
  with unmounted_step [of i "app_run (evs1 @ StartGeneration # evs2)" e] snoc
  show ?case by (simp del: app_step.simps)
qed

lemma settle_unmounted:
  assumes "i < length (instances s)" "\<not> fst (instances s ! i)"
  shows "map shown (instances (app_step s (BatchSettles i outcome))) = map shown (instances s)"
proof (cases "i < length (instances s) \<and> in_flight (snd (instances s ! i)) \<noteq> []")
  case False
  show ?thesis
    unfolding instances_BatchSettles_idle [OF False] ..
next
  case True
  then have a: "i < length (instances s)" and b: "in_flight (snd (instances s ! i)) \<noteq> []"
    by simp_all
  have step: "instances (app_step s (BatchSettles i outcome))
      = (instances s)[i := settle_instance (instances s ! i) outcome]"
    by (rule instances_BatchSettles [OF a b])
  have "shown (settle_instance (instances s ! i) outcome) = shown (instances s ! i)"
    using assms(2) by (simp add: settle_instance_def shown_def Let_def)
  then have "(map shown (instances s))[i := shown (settle_instance (instances s ! i) outcome)]
      = map shown (instances s)"
    using assms(1) by (simp add: list_update_same_conv)
  then show ?thesis
    unfolding step by (simp only: map_update)
qed

lemma settle_calls:
  assumes "i < length (instances s)" "in_flight (snd (instances s ! i)) \<noteq> []"
  shows "setImageUrls_calls (app_step s (BatchSettles i outcome))
      = setImageUrls_calls s
        @ [(i, collect_urls (slides (hd (in_flight (snd (instances s ! i)))))
                 (map outcome [0..<length (slides (hd (in_flight (snd (instances s ! i)))))]))]"
proof -
  have "imageUrls (preview_step (snd (instances s ! i)) (Settle 0 outcome))
      = collect_urls (slides (hd (in_flight (snd (instances s ! i)))))
          (map outcome [0..<length (slides (hd (in_flight (snd (instances s ! i)))))])"
    unfolding settle0 [OF assms(2)] by simp
  then show ?thesis
    using assms unfolding app_step.simps by (simp only: simp_thms if_True) simp
qed

text \<open>
  Claim C2, as the code has it.  The image map and the batches are state of one instance
  of \<^verbatim>\<open>CarouselPreview\<close>, and an instance has one carousel for as long as it exists:
  in every state the app reaches, the batches in flight of an instance are for its own
  carousel, and its image map is empty or was collected from results for the slides of
  its own carousel.  Starting a generation unmounts every instance, the carousels of the
  response are shown in new instances whose maps are empty, and once a generation was
  started, a batch of an instance that existed before it changes nothing any instance
  shows, whenever it settles.  That is all that keeps a late result away from a newer
  carousel: the completion handler checks no identity and discards nothing, it calls
  \<^verbatim>\<open>setImageUrls\<close> with the map collected for the carousel of its batch whether the
  instance is still shown or not, and a generation cancels no batch.
\<close>

theorem stale_batch_stays_in_its_preview:
  "(\<forall>p \<in> set (instances (app_run evs)).
       (\<forall>c \<in> set (in_flight (snd p)). c = carousel_prop (snd p))
     \<and> (imageUrls (snd p) = Map.empty
        \<or> (\<exists>outcome. imageUrls (snd p)
              = collect_urls (slides (carousel_prop (snd p)))
                  (map outcome [0..<length (slides (carousel_prop (snd p)))]))))
   \<and> (i < length (instances (app_run evs1)) \<longrightarrow>
        map shown (instances (app_step (app_run (evs1 @ StartGeneration # evs2))
                     (BatchSettles i outcome)))
          = map shown (instances (app_run (evs1 @ StartGeneration # evs2))))
   \<and> (app_isLoading s \<longrightarrow>
        instances (app_step s (ShowResults cs)) = instances s @ map (\<lambda>c. (True, mount c)) cs)
   \<and> imageUrls (mount c) = Map.empty
   \<and> (i < length (instances s) \<and> in_flight (snd (instances s ! i)) \<noteq> [] \<longrightarrow>
        setImageUrls_calls (app_step s (BatchSettles i outcome))
          = setImageUrls_calls s
            @ [(i, collect_urls (slides (hd (in_flight (snd (instances s ! i)))))
                     (map outcome [0..<length (slides (hd (in_flight (snd (instances s ! i)))))]))])
   \<and> map (\<lambda>p. in_flight (snd p)) (instances (app_step s StartGeneration))
       = map (\<lambda>p. in_flight (snd p)) (instances s)"
proof -
  have own: "\<forall>p \<in> set (instances (app_run evs)).
       (\<forall>c \<in> set (in_flight (snd p)). c = carousel_prop (snd p))
     \<and> (imageUrls (snd p) = Map.empty
        \<or> (\<exists>outcome. imageUrls (snd p)
              = collect_urls (slides (carousel_prop (snd p)))
                  (map outcome [0..<length (slides (carousel_prop (snd p)))])))"
    using app_run_own_batches [of evs] unfolding own_batches_def .
  have stale: "i < length (instances (app_run evs1)) \<longrightarrow>
        map shown (instances (app_step (app_run (evs1 @ StartGeneration # evs2))
                     (BatchSettles i outcome)))
          = map shown (instances (app_run (evs1 @ StartGeneration # evs2)))"
  proof
    assume "i < length (instances (app_run evs1))"
    from unmounted_for_good [OF this, of evs2]
    have "i < length (instances (app_run (evs1 @ StartGeneration # evs2)))"
      and "\<not> fst (instances (app_run (evs1 @ StartGeneration # evs2)) ! i)"
      by (rule conjunct1, rule conjunct2)
    then show "map shown (instances (app_step (app_run (evs1 @ StartGeneration # evs2))
                     (BatchSettles i outcome)))
          = map shown (instances (app_run (evs1 @ StartGeneration # evs2)))"
      by (rule settle_unmounted)
  qed
  have fresh: "app_isLoading s \<longrightarrow>
        instances (app_step s (ShowResults cs)) = instances s @ map (\<lambda>c. (True, mount c)) cs"
    by simp
  have empty: "imageUrls (mount c) = Map.empty"
    by (cases "isPhotoBg c") (simp_all add: mount_photo mount_plain)
  have calls: "i < length (instances s) \<and> in_flight (snd (instances s ! i)) \<noteq> [] \<longrightarrow>
        setImageUrls_calls (app_step s (BatchSettles i outcome))
          = setImageUrls_calls s
            @ [(i, collect_urls (slides (hd (in_flight (snd (instances s ! i)))))
                     (map outcome [0..<length (slides (hd (in_flight (snd (instances s ! i)))))]))]"
  proof
    assume "i < length (instances s) \<and> in_flight (snd (instances s ! i)) \<noteq> []"
    then have a: "i < length (instances s)" and b: "in_flight (snd (instances s ! i)) \<noteq> []"
      by simp_all
    from settle_calls [OF a b]
    show "setImageUrls_calls (app_step s (BatchSettles i outcome))
          = setImageUrls_calls s
            @ [(i, collect_urls (slides (hd (in_flight (snd (instances s ! i)))))
                     (map outcome [0..<length (slides (hd (in_flight (snd (instances s ! i)))))]))]" .
  qed
  have kept: "map (\<lambda>p. in_flight (snd p)) (instances (app_step s StartGeneration))
       = map (\<lambda>p. in_flight (snd p)) (instances s)"
    unfolding instances_StartGeneration by (simp add: comp_def)
  from own stale fresh empty calls kept show ?thesis
    by (intro conjI)
qed

theorem stale_batch_stays_in_its_preview_witness:
  "map shown (instances (app_step (app_run [StartGeneration,
      ShowResults [\<lparr>carousel_id = ''c1'', nicho = None, contexto = None, estilo_fundo = Some ''foto realista'',
        paleta_cores = None, tipografia = None, cta_no_ultimo_slide = None,
        slides = [\<lparr>ordem = 1, tipo = capa, frase = ''A'', instrucoes_layout = [], prompt_imagem = ''p1''\<rparr>]\<rparr>],
      StartGeneration,
      ShowResults [\<lparr>carousel_id = ''c2'', nicho = None, contexto = None, estilo_fundo = Some ''photo'',
        paleta_cores = None, tipografia = None, cta_no_ultimo_slide = None,
        slides = [\<lparr>ordem = 1, tipo = capa, frase = ''Z'', instrucoes_layout = [], prompt_imagem = ''q1''\<rparr>]\<rparr>]])
      (BatchSettles 0 (\<lambda>i. Some ''data:image/png;base64,AA''))))
     = map shown (instances (app_run [StartGeneration,
      ShowResults [\<lparr>carousel_id = ''c1'', nicho = None, contexto = None, estilo_fundo = Some ''foto realista'',
        paleta_cores = None, tipografia = None, cta_no_ultimo_slide = None,
        slides = [\<lparr>ordem = 1, tipo = capa, frase = ''A'', instrucoes_layout = [], prompt_imagem = ''p1''\<rparr>]\<rparr>],
      StartGeneration,
      ShowResults [\<lparr>carousel_id = ''c2'', nicho = None, contexto = None, estilo_fundo = Some ''photo'',
        paleta_cores = None, tipografia = None, cta_no_ultimo_slide = None,
        slides = [\<lparr>ordem = 1, tipo = capa, frase = ''Z'', instrucoes_layout = [], prompt_imagem = ''q1''\<rparr>]\<rparr>]]))
   \<and> map (\<lambda>p. (fst p, carousel_id (carousel_prop (snd p)), imageUrls (snd p) 1))
       (instances (app_run [StartGeneration,
      ShowResults [\<lparr>carousel_id = ''c1'', nicho = None, contexto = None, estilo_fundo = Some ''foto realista'',
        paleta_cores = None, tipografia = None, cta_no_ultimo_slide = None,
        slides = [\<lparr>ordem = 1, tipo = capa, frase = ''A'', instrucoes_layout = [], prompt_imagem = ''p1''\<rparr>]\<rparr>],
      StartGeneration,
      ShowResults [\<lparr>carousel_id = ''c2'', nicho = None, contexto = None, estilo_fundo = Some ''photo'',
        paleta_cores = None, tipografia = None, cta_no_ultimo_slide = None,
        slides = [\<lparr>ordem = 1, tipo = capa, frase = ''Z'', instrucoes_layout = [], prompt_imagem = ''q1''\<rparr>]\<rparr>],
      BatchSettles 0 (\<lambda>i. Some ''data:image/png;base64,AA'')]))
     = [(False, ''c1'', None), (True, ''c2'', None)]"
proof -
  have lt: "0 < length (instances (app_run [StartGeneration,
      ShowResults [\<lparr>carousel_id = ''c1'', nicho = None, contexto = None, estilo_fundo = Some ''foto realista'',
        paleta_cores = None, tipografia = None, cta_no_ultimo_slide = None,
        slides = [\<lparr>ordem = 1, tipo = capa, frase = ''A'', instrucoes_layout = [], prompt_imagem = ''p1''\<rparr>]\<rparr>]]))"
    by (simp add: app_run_def app_init_def)
  from stale_batch_stays_in_its_preview
    [of _ 0 "[StartGeneration, ShowResults [\<lparr>carousel_id = ''c1'', nicho = None, contexto = None, estilo_fundo = Some ''foto realista'',
        paleta_cores = None, tipografia = None, cta_no_ultimo_slide = None,
        slides = [\<lparr>ordem = 1, tipo = capa, frase = ''A'', instrucoes_layout = [], prompt_imagem = ''p1''\<rparr>]\<rparr>]]"
        "[ShowResults [\<lparr>carousel_id = ''c2'', nicho = None, contexto = None, estilo_fundo = Some ''photo'',
        paleta_cores = None, tipografia = None, cta_no_ultimo_slide = None,
        slides = [\<lparr>ordem = 1, tipo = capa, frase = ''Z'', instrucoes_layout = [], prompt_imagem = ''q1''\<rparr>]\<rparr>]]"
        "(\<lambda>i. Some ''data:image/png;base64,AA'')"]
  have "0 < length (instances (app_run [StartGeneration,
      ShowResults [\<lparr>carousel_id = ''c1'', nicho = None, contexto = None, estilo_fundo = Some ''foto realista'',
        paleta_cores = None, tipografia = None, cta_no_ultimo_slide = None,
        slides = [\<lparr>ordem = 1, tipo = capa, frase = ''A'', instrucoes_layout = [], prompt_imagem = ''p1''\<rparr>]\<rparr>]])) \<longrightarrow>
      map shown (instances (app_step (app_run [StartGeneration,
      ShowResults [\<lparr>carousel_id = ''c1'', nicho = None, contexto = None, estilo_fundo = Some ''foto realista'',
        paleta_cores = None, tipografia = None, cta_no_ultimo_slide = None,
        slides = [\<lparr>ordem = 1, tipo = capa, frase = ''A'', instrucoes_layout = [], prompt_imagem = ''p1''\<rparr>]\<rparr>],
      StartGeneration,
      ShowResults [\<lparr>carousel_id = ''c2'', nicho = None, contexto = None, estilo_fundo = Some ''photo'',
        paleta_cores = None, tipografia = None, cta_no_ultimo_slide = None,
        slides = [\<lparr>ordem = 1, tipo = capa, frase = ''Z'', instrucoes_layout = [], prompt_imagem = ''q1''\<rparr>]\<rparr>]])
      (BatchSettles 0 (\<lambda>i. Some ''data:image/png;base64,AA''))))
     = map shown (instances (app_run [StartGeneration,
      ShowResults [\<lparr>carousel_id = ''c1'', nicho = None, contexto = None, estilo_fundo = Some ''foto realista'',
        paleta_cores = None, tipografia = None, cta_no_ultimo_slide = None,
        slides = [\<lparr>ordem = 1, tipo = capa, frase = ''A'', instrucoes_layout = [], prompt_imagem = ''p1''\<rparr>]\<rparr>],
      StartGeneration,
      ShowResults [\<lparr>carousel_id = ''c2'', nicho = None, contexto = None, estilo_fundo = Some ''photo'',
        paleta_cores = None, tipografia = None, cta_no_ultimo_slide = None,
        slides = [\<lparr>ordem = 1, tipo = capa, frase = ''Z'', instrucoes_layout = [], prompt_imagem = ''q1''\<rparr>]\<rparr>]]))"
    by simp
  with lt have first: "map shown (instances (app_step (app_run [StartGeneration,
      ShowResults [\<lparr>carousel_id = ''c1'', nicho = None, contexto = None, estilo_fundo = Some ''foto realista'',
        paleta_cores = None, tipografia = None, cta_no_ultimo_slide = None,
        slides = [\<lparr>ordem = 1, tipo = capa, frase = ''A'', instrucoes_layout = [], prompt_imagem = ''p1''\<rparr>]\<rparr>],
      StartGeneration,
      ShowResults [\<lparr>carousel_id = ''c2'', nicho = None, contexto = None, estilo_fundo = Some ''photo'',
        paleta_cores = None, tipografia = None, cta_no_ultimo_slide = None,
        slides = [\<lparr>ordem = 1, tipo = capa, frase = ''Z'', instrucoes_layout = [], prompt_imagem = ''q1''\<rparr>]\<rparr>]])
      (BatchSettles 0 (\<lambda>i. Some ''data:image/png;base64,AA''))))
     = map shown (instances (app_run [StartGeneration,
      ShowResults [\<lparr>carousel_id = ''c1'', nicho = None, contexto = None, estilo_fundo = Some ''foto realista'',
        paleta_cores = None, tipografia = None, cta_no_ultimo_slide = None,
        slides = [\<lparr>ordem = 1, tipo = capa, frase = ''A'', instrucoes_layout = [], prompt_imagem = ''p1''\<rparr>]\<rparr>],
      StartGeneration,
      ShowResults [\<lparr>carousel_id = ''c2'', nicho = None, contexto = None, estilo_fundo = Some ''photo'',
        paleta_cores = None, tipografia = None, cta_no_ultimo_slide = None,
        slides = [\<lparr>ordem = 1, tipo = capa, frase = ''Z'', instrucoes_layout = [], prompt_imagem = ''q1''\<rparr>]\<rparr>]]))"
    by (rule rev_mp)
  have second: "map (\<lambda>p. (fst p, carousel_id (carousel_prop (snd p)), imageUrls (snd p) 1))
       (instances (app_run [StartGeneration,
      ShowResults [\<lparr>carousel_id = ''c1'', nicho = None, contexto = None, estilo_fundo = Some ''foto realista'',
        paleta_cores = None, tipografia = None, cta_no_ultimo_slide = None,
        slides = [\<lparr>ordem = 1, tipo = capa, frase = ''A'', instrucoes_layout = [], prompt_imagem = ''p1''\<rparr>]\<rparr>],
      StartGeneration,
      ShowResults [\<lparr>carousel_id = ''c2'', nicho = None, contexto = None, estilo_fundo = Some ''photo'',
        paleta_cores = None, tipografia = None, cta_no_ultimo_slide = None,
        slides = [\<lparr>ordem = 1, tipo = capa, frase = ''Z'', instrucoes_layout = [], prompt_imagem = ''q1''\<rparr>]\<rparr>],
      BatchSettles 0 (\<lambda>i. Some ''data:image/png;base64,AA'')]))
     = [(False, ''c1'', None), (True, ''c2'', None)]"
    by (simp add: app_run_def app_init_def mount_def image_effect_def isPhotoBg_def
        settle_instance_def fetchImages_settled_def Let_def)
  from first second show ?thesis by (rule conjI)
qed

text \<open>
  Claim C2 as stated fails.  A carousel of photographic style is shown and its batch is
  started; a new generation replaces it by another carousel; then the batch of the first
  settles.  Nothing has called \<^verbatim>\<open>setImageUrls\<close> before; the first carousel is no
  longer shown and the second is; and the handler calls \<^verbatim>\<open>setImageUrls\<close> of the
  first preview with the image generated for the first carousel: nothing is checked and
  nothing is discarded.
\<close>

theorem stale_batch_not_discarded:
  "setImageUrls_calls (app_run [StartGeneration,
      ShowResults [\<lparr>carousel_id = ''c1'', nicho = None, contexto = None, estilo_fundo = Some ''foto realista'',
        paleta_cores = None, tipografia = None, cta_no_ultimo_slide = None,
        slides = [\<lparr>ordem = 1, tipo = capa, frase = ''A'', instrucoes_layout = [], prompt_imagem = ''p1''\<rparr>]\<rparr>],
      StartGeneration,
      ShowResults [\<lparr>carousel_id = ''c2'', nicho = None, contexto = None, estilo_fundo = Some ''photo'',
        paleta_cores = None, tipografia = None, cta_no_ultimo_slide = None,
        slides = [\<lparr>ordem = 1, tipo = capa, frase = ''Z'', instrucoes_layout = [], prompt_imagem = ''q1''\<rparr>]\<rparr>]]) = []
   \<and> map (\<lambda>p. (fst p, carousel_id (carousel_prop (snd p))))
       (instances (app_run [StartGeneration,
      ShowResults [\<lparr>carousel_id = ''c1'', nicho = None, contexto = None, estilo_fundo = Some ''foto realista'',
        paleta_cores = None, tipografia = None, cta_no_ultimo_slide = None,
        slides = [\<lparr>ordem = 1, tipo = capa, frase = ''A'', instrucoes_layout = [], prompt_imagem = ''p1''\<rparr>]\<rparr>],
      StartGeneration,
      ShowResults [\<lparr>carousel_id = ''c2'', nicho = None, contexto = None, estilo_fundo = Some ''photo'',
        paleta_cores = None, tipografia = None, cta_no_ultimo_slide = None,
        slides = [\<lparr>ordem = 1, tipo = capa, frase = ''Z'', instrucoes_layout = [], prompt_imagem = ''q1''\<rparr>]\<rparr>]]))
     = [(False, ''c1''), (True, ''c2'')]
   \<and> map fst (setImageUrls_calls (app_run [StartGeneration,
      ShowResults [\<lparr>carousel_id = ''c1'', nicho = None, contexto = None, estilo_fundo = Some ''foto realista'',
        paleta_cores = None, tipografia = None, cta_no_ultimo_slide = None,
        slides = [\<lparr>ordem = 1, tipo = capa, frase = ''A'', instrucoes_layout = [], prompt_imagem = ''p1''\<rparr>]\<rparr>],
      StartGeneration,
      ShowResults [\<lparr>carousel_id = ''c2'', nicho = None, contexto = None, estilo_fundo = Some ''photo'',
        paleta_cores = None, tipografia = None, cta_no_ultimo_slide = None,
        slides = [\<lparr>ordem = 1, tipo = capa, frase = ''Z'', instrucoes_layout = [], prompt_imagem = ''q1''\<rparr>]\<rparr>],
      BatchSettles 0 (\<lambda>i. Some ''data:image/png;base64,AA'')])) = [0]
   \<and> snd (hd (setImageUrls_calls (app_run [StartGeneration,
      ShowResults [\<lparr>carousel_id = ''c1'', nicho = None, contexto = None, estilo_fundo = Some ''foto realista'',
        paleta_cores = None, tipografia = None, cta_no_ultimo_slide = None,
        slides = [\<lparr>ordem = 1, tipo = capa, frase = ''A'', instrucoes_layout = [], prompt_imagem = ''p1''\<rparr>]\<rparr>],
      StartGeneration,
      ShowResults [\<lparr>carousel_id = ''c2'', nicho = None, contexto = None, estilo_fundo = Some ''photo'',
        paleta_cores = None, tipografia = None, cta_no_ultimo_slide = None,
        slides = [\<lparr>ordem = 1, tipo = capa, frase = ''Z'', instrucoes_layout = [], prompt_imagem = ''q1''\<rparr>]\<rparr>],
      BatchSettles 0 (\<lambda>i. Some ''data:image/png;base64,AA'')]))) 1
     = Some ''data:image/png;base64,AA''"
  by (simp add: app_run_def app_init_def mount_def image_effect_def isPhotoBg_def
      settle_instance_def fetchImages_settled_def collect_urls_def truthy_def Let_def)

subsection \<open>Canvas size\<close>

lemma render_canvas_size:
  "canvas_width (render_canvas b typography slide carousel language bgImage) = 1080"
  "canvas_height (render_canvas b typography slide carousel language bgImage) = 1080"
  by (simp_all add: render_canvas_def Let_def)

end
